theory Spec2Isabelle
  imports Main "HOL-Library.Word" "HOL-Library.Monad_Syntax"
begin

section \<open>The snake engine of \<^verbatim>\<open>src/core/SnakeEngine.cpp\<close>\<close>

text \<open>
  The class template \<^verbatim>\<open>SEngine<U, UU>\<close> is modelled at its default arguments:
  \<^verbatim>\<open>U = unsigned char\<close> (8 bits) and \<^verbatim>\<open>UU = unsigned short\<close> (16 bits).
  Arithmetic on the fields wraps as in C++; the comparisons of
  \<^verbatim>\<open>isInvalidMovement\<close> are done on \<^verbatim>\<open>int\<close>, after integer promotion.
\<close>

type_synonym U = "8 word"
type_synonym UU = "16 word"

datatype Movement = UP | DOWN | LEFT | RIGHT

datatype GameStatus = NONE | WIN | LOST

text \<open>\<^verbatim>\<open>struct Cell { U x, y; }\<close>; its \<^verbatim>\<open>operator==\<close> compares both coordinates.\<close>

datatype Cell = Cell (cell_x: U) (cell_y: U)

text \<open>
  What a call can end with besides a value: the exception of the constructor, and the
  undefined behaviour of C++ (\<^verbatim>\<open>front()\<close> of an empty vector, a store outside the
  allocated buffer).
\<close>

datatype error = runtime_error string | undefined_behaviour

text \<open>A wide character is its code point; a unit that \<^verbatim>\<open>malloc\<close> returned and nobody
  has stored to yet is \<open>None\<close>.\<close>

type_synonym wchar = nat
type_synonym wbuf = "wchar option list"

text \<open>
  \<^verbatim>\<open>random.hpp\<close> is not part of the sources at hand. Its \<^verbatim>\<open>rand_in_range\<close> is a
  parameter of the model: \<open>rnd i lo hi\<close> is what the \<open>i\<close>-th call of the program run
  returns when called with the bounds \<open>lo\<close> and \<open>hi\<close>. The engine state counts the calls
  made so far (\<open>rng\<close>).
\<close>

type_synonym rand = "nat \<Rightarrow> U \<Rightarrow> U \<Rightarrow> U"

record engine =
  snake :: "Cell list"
  xsz :: U
  ysz :: U
  lv_food :: U
  score :: UU
  food :: Cell
  prv_mv :: Movement
  buffer :: wbuf
  length' :: nat
  rng :: nat

text \<open>\<^verbatim>\<open>signed char offset[4][2] = { { -1, 0 }, { 1, 0 }, { 0, -1 }, { 0, 1 } }\<close>,
  indexed by the enumerators \<^verbatim>\<open>UP = 0, DOWN = 1, LEFT = 2, RIGHT = 3\<close>.\<close>

fun offset :: "Movement \<Rightarrow> int \<times> int" where
  "offset UP = (-1, 0)"
| "offset DOWN = (1, 0)"
| "offset LEFT = (0, -1)"
| "offset RIGHT = (0, 1)"

definition generate :: "rand \<Rightarrow> engine \<Rightarrow> Cell" where
  "generate rnd s = Cell (rnd (rng s) 0 (xsz s - 1)) (rnd (rng s + 1) 0 (ysz s - 1))"

definition find' :: "engine \<Rightarrow> Cell \<Rightarrow> bool" where
  "find' s b = list_ex (\<lambda>a. a = b) (snake s)"

text \<open>One pass of the \<^verbatim>\<open>retry:\<close> label: draw a cell and store it as the food.\<close>

definition draw_food :: "rand \<Rightarrow> engine \<Rightarrow> engine" where
  "draw_food rnd s = s\<lparr>food := generate rnd s, rng := rng s + 2\<rparr>"

text \<open>\<^verbatim>\<open>addnewfood\<close> jumps back to \<^verbatim>\<open>retry\<close> as long as the drawn cell is on the
  snake. \<open>None\<close>: the loop never ends.\<close>

partial_function (option) addnewfood :: "rand \<Rightarrow> engine \<Rightarrow> engine option" where
  "addnewfood rnd s =
     (if list_ex (\<lambda>c. c = food (draw_food rnd s)) (snake (draw_food rnd s))
      then addnewfood rnd (draw_food rnd s)
      else Some (draw_food rnd s))"

declare addnewfood.simps [code]

definition isInvalidMovement :: "engine \<Rightarrow> Cell \<Rightarrow> Movement \<Rightarrow> bool" where
  "isInvalidMovement s head mv =
     (uint (cell_x head) + fst (offset mv) \<le> -1 \<or> uint (cell_x head) + fst (offset mv) \<ge> uint (xsz s) \<or>
      uint (cell_y head) + snd (offset mv) \<le> -1 \<or> uint (cell_y head) + snd (offset mv) \<ge> uint (ysz s))"

definition areOpposite :: "Movement \<Rightarrow> Movement \<Rightarrow> bool" where
  "areOpposite a b =
     (((a = UP \<and> b = DOWN) \<or> (a = DOWN \<and> b = UP))
      \<or> ((a = LEFT \<and> b = RIGHT) \<or> (a = RIGHT \<and> b = LEFT)))"

text \<open>The head after \<^verbatim>\<open>x += offset[mv][0]; y += offset[mv][1]\<close>: the sum is an
  \<^verbatim>\<open>int\<close>, converted back to \<^verbatim>\<open>U\<close>.\<close>

definition step_head :: "Cell \<Rightarrow> Movement \<Rightarrow> Cell" where
  "step_head c mv =
     Cell (word_of_int (uint (cell_x c) + fst (offset mv)))
          (word_of_int (uint (cell_y c) + snd (offset mv)))"

text \<open>
  The second loop of \<^verbatim>\<open>move\<close>, over all cells of the vector: a cell equal to the head
  is skipped, any other cell takes the value of \<^verbatim>\<open>hold\<close> and \<^verbatim>\<open>hold\<close> takes its
  old value. The head itself is the first cell visited and is skipped, so
  \<^verbatim>\<open>*snake.front()\<close> is the same value \<open>front\<close> in every iteration. The result is the
  vector and the final \<^verbatim>\<open>hold\<close>.
\<close>

fun follow :: "Cell \<Rightarrow> Cell \<Rightarrow> Cell list \<Rightarrow> Cell list \<times> Cell" where
  "follow front hold [] = ([], hold)"
| "follow front hold (c # cs) =
     (if c = front
      then (case follow front hold cs of (cs', hold') \<Rightarrow> (c # cs', hold'))
      else (case follow front c cs of (cs', hold') \<Rightarrow> (hold # cs', hold')))"

text \<open>
  \<^verbatim>\<open>move\<close> from line 118 on, for the direction \<open>mv\<close> that line 116 has settled.
  \<open>None\<close>: the call never returns (the retry loop of \<^verbatim>\<open>addnewfood\<close>).
\<close>

definition move_dir :: "rand \<Rightarrow> Movement \<Rightarrow> engine \<Rightarrow> (error + GameStatus \<times> engine) option" where
  "move_dir rnd mv s =
     (case snake s of
        [] \<Rightarrow> Some (Inl undefined_behaviour)
      | front # rest \<Rightarrow>
          if isInvalidMovement s front mv then Some (Inr (LOST, s))
          else
            let hold = front;
                snake1 = step_head front mv # rest;
                occurrence = count_list snake1 (hd snake1)
            in if occurrence > 1 then Some (Inr (LOST, s\<lparr>snake := snake1\<rparr>))
               else
                 (case follow (hd snake1) hold snake1 of
                    (snake2, hold2) \<Rightarrow>
                      if hd snake2 = food s then
                        (case addnewfood rnd (s\<lparr>snake := snake2 @ [hold2], score := score s + 1\<rparr>) of
                           None \<Rightarrow> None
                         | Some s3 \<Rightarrow>
                             if lv_food s3 - 1 = 0
                             then Some (Inr (WIN, s3\<lparr>lv_food := lv_food s3 - 1\<rparr>))
                             else Some (Inr (NONE, s3\<lparr>lv_food := lv_food s3 - 1, prv_mv := mv\<rparr>)))
                      else Some (Inr (NONE, s\<lparr>snake := snake2, prv_mv := mv\<rparr>))))"

text \<open>Line 116: \<^verbatim>\<open>mv = areOpposite(mv, prv_mv) ? prv_mv : mv\<close>.\<close>

definition locked :: "engine \<Rightarrow> Movement \<Rightarrow> Movement" where
  "locked s mv = (if areOpposite mv (prv_mv s) then prv_mv s else mv)"

definition move :: "rand \<Rightarrow> Movement \<Rightarrow> engine \<Rightarrow> (error + GameStatus \<times> engine) option" where
  "move rnd mv s = move_dir rnd (locked s mv) s"


subsection \<open>Rendering\<close>

text \<open>The wide characters that \<^verbatim>\<open>to_wstr\<close> stores, as code points: the full block
  U+2588, the shade U+2592, the circle U+25CF, the space, the newline and the terminator.\<close>

definition full_block :: wchar where "full_block = 9608"
definition shade :: wchar where "shade = 9618"
definition circle :: wchar where "circle = 9679"
definition space :: wchar where "space = 32"
definition newline :: wchar where "newline = 10"
definition NUL :: wchar where "NUL = 0"

text \<open>
  The renderer works on the write position \<^verbatim>\<open>k\<close> and the buffer.
  \<open>put c\<close> is \<^verbatim>\<open>buffer[k++] = c\<close> and \<open>skip n\<close> is \<^verbatim>\<open>k += n\<close>. A store outside the
  allocated units is undefined behaviour: \<open>None\<close>.
\<close>

definition put :: "wchar \<Rightarrow> nat \<times> wbuf \<Rightarrow> (nat \<times> wbuf) option" where
  "put c kb = (case kb of (k, b) \<Rightarrow> if k < length b then Some (Suc k, b[k := Some c]) else None)"

definition skip :: "nat \<Rightarrow> nat \<times> wbuf \<Rightarrow> (nat \<times> wbuf) option" where
  "skip n kb = (case kb of (k, b) \<Rightarrow> Some (k + n, b))"

text \<open>\<^verbatim>\<open>for (i = 0; i < n; i++) body\<close>, on a state that a failing body ends.\<close>

primrec for_loop :: "nat \<Rightarrow> (nat \<Rightarrow> 'a \<Rightarrow> 'a option) \<Rightarrow> 'a \<Rightarrow> 'a option" where
  "for_loop 0 body a = Some a"
| "for_loop (Suc n) body a = for_loop n body a \<bind> body n"

text \<open>The body of the loops at lines 176 to 200: the cell \<^verbatim>\<open>(x, y)\<close> of the
  incremental rendering.\<close>

definition draw_cell :: "engine \<Rightarrow> nat \<Rightarrow> nat \<Rightarrow> nat \<times> wbuf \<Rightarrow> (nat \<times> wbuf) option" where
  "draw_cell s x y kb =
     (case snake s of
        [] \<Rightarrow> None
      | front # _ \<Rightarrow>
          let hold = Cell (of_nat x) (of_nat y) in
          do {
            kb \<leftarrow> (if y = 0 then skip 2 kb else Some kb);
            kb \<leftarrow> (if front = hold then put full_block kb \<bind> put full_block
                   else if find' s hold then put full_block kb \<bind> put full_block
                   else if hold = food s then put circle kb \<bind> put space
                   else put space kb \<bind> put space);
            if int y = uint (ysz s) - 1 then skip 3 kb else Some kb
          })"

text \<open>\<^verbatim>\<open>#define LENGTH(_XSZ_,_YSZ_) (((_XSZ_+2)*(_YSZ_+2) << 1) + _XSZ_ + 2)\<close>, on
  \<^verbatim>\<open>int\<close> values that are never negative and stay below \<open>2 ^ 31\<close>.\<close>

definition LENGTH' :: "U \<Rightarrow> U \<Rightarrow> nat" where
  "LENGTH' X Y = push_bit 1 ((unat X + 2) * (unat Y + 2)) + unat X + 2"

definition border :: "nat \<times> wbuf \<Rightarrow> (nat \<times> wbuf) option" where
  "border kb = put shade kb \<bind> put shade"

text \<open>The body of the loops at lines 228 to 244: the first call leaves the two units of
  a cell as they are.\<close>

definition draw_all_cell :: "engine \<Rightarrow> nat \<Rightarrow> nat \<Rightarrow> nat \<times> wbuf \<Rightarrow> (nat \<times> wbuf) option" where
  "draw_all_cell s x y kb =
     do {
       kb \<leftarrow> (if y = 0 then border kb else Some kb);
       kb \<leftarrow> skip 2 kb;
       if int y = uint (ysz s) - 1 then border kb \<bind> put newline else Some kb
     }"

text \<open>The label \<^verbatim>\<open>_draw_all\<close>: a fresh buffer of \<^verbatim>\<open>LENGTH(xsz, ysz) + 1\<close> units, the
  borders and the newlines. The result is the final \<^verbatim>\<open>k\<close> and the buffer.\<close>

definition draw_all :: "engine \<Rightarrow> (nat \<times> wbuf) option" where
  "draw_all s =
     do {
       kb \<leftarrow> for_loop (Suc (unat (ysz s))) (\<lambda>y. border) (0, replicate (LENGTH' (xsz s) (ysz s) + 1) None);
       kb \<leftarrow> border kb;
       kb \<leftarrow> put newline kb;
       kb \<leftarrow> for_loop (unat (xsz s)) (\<lambda>x. for_loop (unat (ysz s)) (draw_all_cell s x)) kb;
       kb \<leftarrow> for_loop (Suc (unat (ysz s))) (\<lambda>y. border) kb;
       kb \<leftarrow> border kb;
       kb \<leftarrow> put newline kb;
       (case kb of (k, b) \<Rightarrow> if k < length b then Some (k, b[k := Some NUL]) else None)
     }"

text \<open>The incremental rendering starts at \<^verbatim>\<open>k = ((ysz+1) << 1) + 3\<close>.\<close>

definition draw_cells :: "engine \<Rightarrow> (nat \<times> wbuf) option" where
  "draw_cells s =
     for_loop (unat (xsz s)) (\<lambda>x. for_loop (unat (ysz s)) (draw_cell s x))
       (push_bit 1 (unat (ysz s) + 1) + 3, buffer s)"

definition to_wstr :: "bool \<Rightarrow> engine \<Rightarrow> engine option" where
  "to_wstr isFirstCall s =
     (if isFirstCall
      then map_option (\<lambda>kb. s\<lparr>buffer := snd kb, length' := LENGTH' (xsz s) (ysz s)\<rparr>) (draw_all s)
      else map_option (\<lambda>kb. s\<lparr>buffer := snd kb\<rparr>) (draw_cells s))"

subsection \<open>Construction\<close>

text \<open>
  The constructor. \<open>Some (Inl e)\<close>: it throws; \<open>None\<close>: it never returns. The members
  \<^verbatim>\<open>food\<close>, \<^verbatim>\<open>prv_mv\<close> and \<^verbatim>\<open>length\<close> have no value before \<^verbatim>\<open>addnewfood\<close>, line 99
  and \<^verbatim>\<open>to_wstr\<close> assign them, and nothing reads them before; the record starts with
  \<open>Cell 0 0\<close>, \<open>UP\<close> and \<open>0\<close> there. The buffer starts as \<^verbatim>\<open>NULL\<close>, the empty list.
\<close>

definition initial :: "U \<Rightarrow> U \<Rightarrow> U \<Rightarrow> UU \<Rightarrow> engine" where
  "initial xsz0 ysz0 lv_food0 score0 =
     \<lparr>snake = [Cell (of_nat (unat xsz0 div 2)) (of_nat (unat ysz0 div 2)),
               Cell (of_nat (unat xsz0 div 2)) (of_nat (unat ysz0 div 2 + 1))],
      xsz = xsz0, ysz = ysz0, lv_food = lv_food0, score = score0,
      food = Cell 0 0, prv_mv = UP, buffer = [], length' = 0, rng = 0\<rparr>"

definition SEngine :: "rand \<Rightarrow> U \<Rightarrow> U \<Rightarrow> U \<Rightarrow> UU \<Rightarrow> (error + engine) option" where
  "SEngine rnd xsz0 ysz0 lv_food0 score0 =
     (if xsz0 < 9 \<or> ysz0 < 9 then Some (Inl (runtime_error ''board size too small''))
      else if lv_food0 \<le> 0 then Some (Inl (runtime_error ''food must to be at least 1''))
      else
        (case addnewfood rnd (initial xsz0 ysz0 lv_food0 score0) of
           None \<Rightarrow> None
         | Some s1 \<Rightarrow>
             (case to_wstr True (s1\<lparr>prv_mv := LEFT\<rparr>) of
                None \<Rightarrow> Some (Inl undefined_behaviour)
              | Some s2 \<Rightarrow> Some (Inr s2))))"

section \<open>Notions of the specification\<close>

text \<open>The candidate head cell, as a pair of integers, and the grid
  \<open>[0, width) \<times> [0, height)\<close>.\<close>

definition candidate :: "Cell \<Rightarrow> Movement \<Rightarrow> int \<times> int" where
  "candidate c mv = (uint (cell_x c) + fst (offset mv), uint (cell_y c) + snd (offset mv))"

definition in_grid :: "engine \<Rightarrow> int \<times> int \<Rightarrow> bool" where
  "in_grid s p = (0 \<le> fst p \<and> fst p < uint (xsz s) \<and> 0 \<le> snd p \<and> snd p < uint (ysz s))"

fun opposite :: "Movement \<Rightarrow> Movement" where
  "opposite UP = DOWN"
| "opposite DOWN = UP"
| "opposite LEFT = RIGHT"
| "opposite RIGHT = LEFT"

definition perpendicular :: "Movement \<Rightarrow> Movement \<Rightarrow> bool" where
  "perpendicular a b = ((a = UP \<or> a = DOWN) = (b = LEFT \<or> b = RIGHT))"

text \<open>The cell that the \<open>n\<close>-th pass of the retry loop draws, counted from state \<open>s\<close>.\<close>

definition nth_draw :: "rand \<Rightarrow> engine \<Rightarrow> nat \<Rightarrow> Cell" where
  "nth_draw rnd s n = generate rnd (s\<lparr>rng := rng s + 2 * n\<rparr>)"

definition drawn :: "rand \<Rightarrow> engine \<Rightarrow> engine \<Rightarrow> bool" where
  "drawn rnd s s' =
     ((\<exists>n. s' = s\<lparr>food := nth_draw rnd s n, rng := rng s + 2 * Suc n\<rparr>) \<and> food s' \<notin> set (snake s'))"

text \<open>The states of an engine in use: built by the constructor, then moved while
  \<^verbatim>\<open>move\<close> returns \<^verbatim>\<open>GameStatus::NONE\<close>, and rendered at any time.\<close>

inductive reachable :: "rand \<Rightarrow> engine \<Rightarrow> bool" for rnd :: rand where
  constructed: "SEngine rnd X Y F S = Some (Inr s) \<Longrightarrow> reachable rnd s"
| moved: "reachable rnd s \<Longrightarrow> move rnd mv s = Some (Inr (NONE, s')) \<Longrightarrow> reachable rnd s'"
| rendered: "reachable rnd s \<Longrightarrow> to_wstr b s = Some s' \<Longrightarrow> reachable rnd s'"

text \<open>The states of an engine built with the sizes \<open>X\<close> and \<open>Y\<close>, up to its destruction:
  after the constructor, after every call of \<^verbatim>\<open>move\<close> that returns, whatever the status
  (\<^verbatim>\<open>WIN\<close> and \<^verbatim>\<open>LOST\<close> included), and after every rendering.\<close>

inductive in_use :: "rand \<Rightarrow> U \<Rightarrow> U \<Rightarrow> engine \<Rightarrow> bool" for rnd :: rand and X :: U and Y :: U where
  built: "SEngine rnd X Y F S = Some (Inr s) \<Longrightarrow> in_use rnd X Y s"
| after_move: "in_use rnd X Y s \<Longrightarrow> move rnd mv s = Some (Inr (st, s')) \<Longrightarrow> in_use rnd X Y s'"
| after_render: "in_use rnd X Y s \<Longrightarrow> to_wstr b s = Some s' \<Longrightarrow> in_use rnd X Y s'"

text \<open>
  The text of a board, as the specification lays it out: a row of border glyphs, then for
  every \<open>x\<close> a border pair, the units \<open>cells x\<close> of the playable cells, a border pair
  and a newline, then a second row of border glyphs and the terminator. The glyph pair
  of a cell: the filled block for the head and for any other segment, the circle and a
  space for the food, two spaces otherwise.
\<close>

definition border_row :: "engine \<Rightarrow> wbuf" where
  "border_row s = replicate (2 * unat (ysz s) + 4) (Some shade) @ [Some newline]"

definition layout :: "engine \<Rightarrow> (nat \<Rightarrow> wbuf) \<Rightarrow> wbuf" where
  "layout s cells =
     border_row s
     @ concat (map (\<lambda>x. [Some shade, Some shade] @ cells x @ [Some shade, Some shade, Some newline])
                 [0..<unat (xsz s)])
     @ border_row s @ [Some NUL]"

definition glyph :: "engine \<Rightarrow> Cell \<Rightarrow> wbuf" where
  "glyph s c =
     (if c \<in> set (snake s) then [Some full_block, Some full_block]
      else if c = food s then [Some circle, Some space]
      else [Some space, Some space])"

definition glyph_row :: "engine \<Rightarrow> nat \<Rightarrow> wbuf" where
  "glyph_row s x = concat (map (\<lambda>y. glyph s (Cell (of_nat x) (of_nat y))) [0..<unat (ysz s)])"

definition unwritten_row :: "engine \<Rightarrow> nat \<Rightarrow> wbuf" where
  "unwritten_row s x = replicate (2 * unat (ysz s)) None"

text \<open>The number of units of a buffer that have been stored to.\<close>

definition written :: "wbuf \<Rightarrow> nat" where
  "written b = length (filter (\<lambda>u. u \<noteq> None) b)"


text \<open>The write position \<open>length pre\<close> in the buffer \<open>pre @ rest\<close>: the units before
  the position and the units from the position on.\<close>

definition cur :: "wbuf \<Rightarrow> wbuf \<Rightarrow> nat \<times> wbuf" where
  "cur pre rest = (length pre, pre @ rest)"

text \<open>A buffer with the layout of the board of its engine, whatever the units of the
  cells are; and the index of the first of the two units of the cell \<open>(x, y)\<close>.\<close>

definition framed :: "engine \<Rightarrow> bool" where
  "framed s = (\<exists>cells. buffer s = layout s cells \<and> (\<forall>x < unat (xsz s). length (cells x) = 2 * unat (ysz s)))"

definition unit_index :: "engine \<Rightarrow> nat \<Rightarrow> nat \<Rightarrow> nat" where
  "unit_index s x y = Suc x * (2 * unat (ysz s) + 5) + 2 + 2 * y"

text \<open>The state in which \<^verbatim>\<open>move\<close> calls \<^verbatim>\<open>addnewfood\<close>, for the new head \<open>c\<close>: the old
  cells have followed, the old tail is appended again and the score is incremented.\<close>

definition grown :: "engine \<Rightarrow> Cell \<Rightarrow> engine" where
  "grown s c = s\<lparr>snake := c # snake s, score := score s + 1\<rparr>"

section \<open>Example states\<close>

text \<open>A board of 9 by 9 cells with the snake of the constructor, the food left of the
  head, and two random sources: one draws the head cell first and \<open>(2, 2)\<close> from then on,
  the other always draws the upper bound.\<close>

definition game9 :: engine where
  "game9 = \<lparr>snake = [Cell 4 4, Cell 4 5], xsz = 9, ysz = 9, lv_food = 2, score = 0,
             food = Cell 4 3, prv_mv = LEFT, buffer = [], length' = 0, rng = 0\<rparr>"

definition rnd_retry :: rand where
  "rnd_retry i lo hi = (if i < 2 then 4 else 2)"

definition rnd_hi :: rand where
  "rnd_hi i lo hi = hi"

text \<open>The same board after the constructor with the source \<open>rnd_retry\<close>, after the
  first call of \<^verbatim>\<open>to_wstr()\<close> by the caller, and after a move to the left.\<close>

definition built9 :: engine where
  "built9 = game9\<lparr>food := Cell 2 2, rng := 4,
                  buffer := layout game9 (unwritten_row game9), length' := 253\<rparr>"

definition shown9 :: engine where
  "shown9 = built9\<lparr>buffer := layout built9 (glyph_row built9)\<rparr>"

definition moved9 :: engine where
  "moved9 = shown9\<lparr>snake := [Cell 4 3, Cell 4 4]\<rparr>"

text \<open>A board of 9 by 12 cells with one food to eat, left of the head: the state that
  the constructor builds with a source that draws \<open>(4, 5)\<close> first and \<open>(2, 2)\<close> from then
  on, and the state after the move to the left that wins.\<close>

definition rnd_near :: rand where
  "rnd_near i lo hi = (if i = 0 then 4 else if i = 1 then 5 else 2)"

definition game12 :: engine where
  "game12 = \<lparr>snake = [Cell 4 6, Cell 4 7], xsz = 9, ysz = 12, lv_food = 1, score = 0,
              food = Cell 4 5, prv_mv = LEFT, buffer = [], length' = 0, rng = 2\<rparr>"

definition built12 :: engine where
  "built12 = game12\<lparr>buffer := layout game12 (unwritten_row game12), length' := 319\<rparr>"

definition won12 :: engine where
  "won12 = built12\<lparr>snake := [Cell 4 5, Cell 4 6, Cell 4 7], score := 1, lv_food := 0,
                    food := Cell 2 2, rng := 4\<rparr>"

text \<open>A snake of 80 cells that winds through a board of 9 by 9 cells row by row, from
  \<open>(0, 0)\<close> to its head at \<open>(8, 7)\<close>; the food is on the one free cell \<open>(8, 8)\<close> and is the
  last one to eat.\<close>

definition path9 :: "nat \<Rightarrow> Cell" where
  "path9 i = Cell (of_nat (i div 9)) (of_nat (if even (i div 9) then i mod 9 else 8 - i mod 9))"

definition full9 :: engine where
  "full9 = \<lparr>snake = map path9 (rev [0..<80]), xsz = 9, ysz = 9, lv_food = 1, score = 78,
             food = Cell 8 8, prv_mv = RIGHT, buffer = [], length' = 0, rng = 0\<rparr>"

section \<open>Bounds, direction lock and the two loops of \<^verbatim>\<open>move\<close>\<close>

lemma isInvalidMovement_iff: "isInvalidMovement s c mv = (\<not> in_grid s (candidate c mv))"
  by (auto simp: isInvalidMovement_def in_grid_def candidate_def)

lemma areOpposite_iff: "areOpposite a b = (a = opposite b)"
  by (cases a; cases b; simp add: areOpposite_def)

lemma uint_step:
  assumes "0 \<le> uint (w :: U) + d" and "uint w + d < uint (b :: U)"
  shows "uint (word_of_int (uint w + d) :: U) = uint w + d"
proof -
  have "uint b < 2 ^ 8" using uint_bounded [of b] by simp
  with assms(2) have "uint w + d < 2 ^ 8" by linarith
  with assms(1) have "take_bit 8 (uint w + d) = uint w + d" by (simp add: take_bit_int_eq_self)
  then show ?thesis by (simp only: uint_word_of_int_eq) simp
qed

text \<open>Inside the grid the new head has the coordinates of the candidate: the
  conversion back to \<^verbatim>\<open>U\<close> does not wrap.\<close>

lemma step_head_coords:
  assumes "in_grid s (candidate c mv)"
  shows "(uint (cell_x (step_head c mv)), uint (cell_y (step_head c mv))) = candidate c mv"
proof -
  from assms have x: "0 \<le> uint (cell_x c) + fst (offset mv)" "uint (cell_x c) + fst (offset mv) < uint (xsz s)"
    and y: "0 \<le> uint (cell_y c) + snd (offset mv)" "uint (cell_y c) + snd (offset mv) < uint (ysz s)"
    by (auto simp: in_grid_def candidate_def)
  show ?thesis using uint_step [OF x] uint_step [OF y] by (simp add: step_head_def candidate_def)
qed

lemma step_head_ne:
  assumes "in_grid s (candidate c mv)"
  shows "step_head c mv \<noteq> c"
proof
  assume eq: "step_head c mv = c"
  with step_head_coords [OF assms] have "candidate c mv = (uint (cell_x c), uint (cell_y c))" by simp
  then show False by (cases mv) (simp_all add: candidate_def)
qed

text \<open>When no cell behind the head equals the head, the second loop shifts every cell
  to the place of its predecessor and ends with the old tail in \<^verbatim>\<open>hold\<close>.\<close>

lemma follow_tail:
  "front \<notin> set cs \<Longrightarrow> follow front hold cs = (butlast (hold # cs), last (hold # cs))"
  by (induction cs arbitrary: hold) auto

lemma count_list_head: "(Suc 0 < count_list (c # cs) c) = (c \<in> set cs)"
  using count_list_0_iff [of cs c] by auto

lemma move_dir_LOST_bounds:
  "snake s = front # rest \<Longrightarrow> \<not> in_grid s (candidate front mv) \<Longrightarrow>
   move_dir rnd mv s = Some (Inr (LOST, s))"
  by (simp add: move_dir_def isInvalidMovement_iff)

lemma move_dir_LOST_self:
  "snake s = front # rest \<Longrightarrow> in_grid s (candidate front mv) \<Longrightarrow> step_head front mv \<in> set rest \<Longrightarrow>
   move_dir rnd mv s = Some (Inr (LOST, s\<lparr>snake := step_head front mv # rest\<rparr>))"
  by (simp add: move_dir_def isInvalidMovement_iff count_list_head Let_def del: count_list.simps)

lemma move_dir_free:
  assumes "snake s = front # rest" "in_grid s (candidate front mv)" "step_head front mv \<notin> set rest"
  shows "move_dir rnd mv s =
     (if step_head front mv = food s then
        (case addnewfood rnd (grown s (step_head front mv)) of
           None \<Rightarrow> None
         | Some s3 \<Rightarrow>
             if lv_food s3 - 1 = 0
             then Some (Inr (WIN, s3\<lparr>lv_food := lv_food s3 - 1\<rparr>))
             else Some (Inr (NONE, s3\<lparr>lv_food := lv_food s3 - 1, prv_mv := mv\<rparr>)))
      else Some (Inr (NONE, s\<lparr>snake := step_head front mv # butlast (snake s), prv_mv := mv\<rparr>)))"
  using assms
  by (simp add: move_dir_def isInvalidMovement_iff count_list_head Let_def follow_tail grown_def
      del: count_list.simps)

section \<open>The retry loop of \<^verbatim>\<open>addnewfood\<close>\<close>

lemma nth_draw_0: "nth_draw rnd s 0 = food (draw_food rnd s)"
  by (simp add: nth_draw_def draw_food_def generate_def)

lemma nth_draw_Suc: "nth_draw rnd s (Suc n) = nth_draw rnd (draw_food rnd s) n"
  by (simp add: nth_draw_def draw_food_def generate_def)

text \<open>The loop ends as soon as one pass draws a cell off the snake.\<close>

lemma addnewfood_returns:
  "nth_draw rnd s n \<notin> set (snake s) \<Longrightarrow> \<exists>s'. addnewfood rnd s = Some s'"
proof (induction n arbitrary: s)
  case 0
  then show ?case
    by (subst addnewfood.simps) (simp add: nth_draw_0 list_ex_iff draw_food_def)
next
  case (Suc n)
  have "nth_draw rnd (draw_food rnd s) n \<notin> set (snake (draw_food rnd s))"
    using Suc.prems by (simp add: nth_draw_Suc draw_food_def)
  from Suc.IH [OF this] show ?case
    by (subst addnewfood.simps) simp
qed

text \<open>What it returns: the state with one of the drawn cells as the food, off the snake,
  and nothing else changed but the count of draws.\<close>

lemma addnewfood_drawn:
  assumes "addnewfood rnd s = Some s'"
  shows "drawn rnd s s'"
proof (rule addnewfood.raw_induct [where P = drawn, OF _ assms])
  fix f :: "rand \<Rightarrow> engine \<Rightarrow> engine option" and rnd s s'
  assume IH: "\<And>r t y. f r t = Some y \<Longrightarrow> drawn r t y"
    and body: "(if list_ex (\<lambda>c. c = food (draw_food rnd s)) (snake (draw_food rnd s))
      then f rnd (draw_food rnd s) else Some (draw_food rnd s)) = Some s'"
  show "drawn rnd s s'"
  proof (cases "list_ex (\<lambda>c. c = food (draw_food rnd s)) (snake (draw_food rnd s))")
    case True
    with body have "f rnd (draw_food rnd s) = Some s'" by simp
    from IH [OF this] obtain n where
      n: "s' = draw_food rnd s\<lparr>food := nth_draw rnd (draw_food rnd s) n,
                                rng := rng (draw_food rnd s) + 2 * Suc n\<rparr>"
      and f: "food s' \<notin> set (snake s')" unfolding drawn_def by blast
    from n have "s' = s\<lparr>food := nth_draw rnd s (Suc n), rng := rng s + 2 * Suc (Suc n)\<rparr>"
      by (simp add: nth_draw_Suc) (simp add: draw_food_def)
    with f show ?thesis unfolding drawn_def by blast
  next
    case False
    with body have s': "s' = draw_food rnd s" by simp
    then have "s' = s\<lparr>food := nth_draw rnd s 0, rng := rng s + 2 * Suc 0\<rparr>"
      by (simp add: nth_draw_0) (simp add: draw_food_def)
    moreover from False s' have "food s' \<notin> set (snake s')" by (simp add: list_ex_iff)
    ultimately show ?thesis unfolding drawn_def by blast
  qed
qed

lemma addnewfood_Some:
  assumes "addnewfood rnd s = Some s'"
  obtains n where "s' = s\<lparr>food := nth_draw rnd s n, rng := rng s + 2 * Suc n\<rparr>"
    and "food s' \<notin> set (snake s')"
  using addnewfood_drawn [OF assms] unfolding drawn_def by blast

text \<open>It never returns when every pass draws a cell of the snake.\<close>

lemma addnewfood_None:
  assumes "\<And>n. nth_draw rnd s n \<in> set (snake s)"
  shows "addnewfood rnd s = None"
proof (rule ccontr)
  assume "addnewfood rnd s \<noteq> None"
  then obtain s' where "addnewfood rnd s = Some s'" by auto
  then obtain n where "s' = s\<lparr>food := nth_draw rnd s n, rng := rng s + 2 * Suc n\<rparr>"
    and "food s' \<notin> set (snake s')" by (rule addnewfood_Some)
  then have "nth_draw rnd s n \<notin> set (snake s)" by simp
  with assms show False by blast
qed

section \<open>The two renderings of \<^verbatim>\<open>to_wstr\<close>\<close>

lemma put_cur: "put c (cur pre (u # rest)) = Some (cur (pre @ [Some c]) rest)"
  by (simp add: put_def cur_def)

lemma skip_cur: "length mid = n \<Longrightarrow> skip n (cur pre (mid @ rest)) = Some (cur (pre @ mid) rest)"
  by (auto simp add: skip_def cur_def)

lemma border_cur: "border (cur pre (u # v # rest)) = Some (cur (pre @ [Some shade, Some shade]) rest)"
  by (simp add: border_def put_cur)

lemma list2: "length xs = Suc (Suc 0) \<Longrightarrow> \<exists>u v. xs = [u, v]"
  by (cases xs; cases "tl xs") auto

lemma replicate_two: "replicate n x @ x # x # ys = x # x # replicate n x @ ys"
  by (induction n) simp_all

lemma replicate_plus4: "replicate (k + 4) x = x # x # x # x # replicate k x"
proof -
  have "k + 4 = Suc (Suc (Suc (Suc k)))" by simp
  show ?thesis by (simp only: \<open>k + 4 = Suc (Suc (Suc (Suc k)))\<close> replicate.simps)
qed

lemma border_loop:
  "length mid = 2 * n \<Longrightarrow>
   for_loop n (\<lambda>y. border) (cur pre (mid @ rest)) = Some (cur (pre @ replicate (2 * n) (Some shade)) rest)"
proof (induction n arbitrary: mid rest)
  case 0
  then show ?case by simp
next
  case (Suc n)
  define mid' where "mid' = take (2 * n) mid"
  from Suc.prems have len: "length mid' = 2 * n" by (simp add: mid'_def)
  from Suc.prems have "length (drop (2 * n) mid) = Suc (Suc 0)" by simp
  from list2 [OF this] obtain u v where "drop (2 * n) mid = [u, v]" by blast
  then have mid: "mid = mid' @ [u, v]"
    unfolding mid'_def by (metis append_take_drop_id)
  from Suc.IH [OF len, of "u # v # rest"] show ?case
    by (simp add: mid border_cur replicate_two)
qed


lemma drop_two:
  assumes "2 * n + 1 < length cells"
  shows "drop (2 * n) cells = cells ! (2 * n) # cells ! (2 * n + 1) # drop (2 * Suc n) cells"
proof -
  from assms have a: "2 * n < length cells" and b: "Suc (2 * n) < length cells" by simp_all
  show ?thesis
    using Cons_nth_drop_Suc [OF a] Cons_nth_drop_Suc [OF b] by simp
qed

text \<open>A row of either rendering: a first part before the cell at \<open>y = 0\<close>, a part for
  every cell, a last part after the cell at \<open>y = m - 1\<close>.\<close>

lemma row_loop_part:
  fixes body :: "nat \<Rightarrow> nat \<times> wbuf \<Rightarrow> (nat \<times> wbuf) option"
  assumes body: "\<And>y kb. y < m \<Longrightarrow> body y kb =
        (if y = 0 then A kb else Some kb) \<bind> B y \<bind> (\<lambda>kb. if Suc y = m then C kb else Some kb)"
    and A: "\<And>p u v r. A (cur p (u # v # r)) = Some (cur (p @ L u v) r)"
    and B: "\<And>y p u v r. y < m \<Longrightarrow> B y (cur p (u # v # r)) = Some (cur (p @ W y u v) r)"
    and C: "\<And>p u v w r. C (cur p (u # v # w # r)) = Some (cur (p @ R u v w) r)"
    and len: "length cells = 2 * m"
    and n: "n \<le> m"
  shows "for_loop n body (cur pre (l1 # l2 # cells @ r1 # r2 # r3 # rest)) =
     Some (if n = 0 then cur pre (l1 # l2 # cells @ r1 # r2 # r3 # rest)
           else if n < m then
             cur (pre @ L l1 l2 @ concat (map (\<lambda>y. W y (cells ! (2 * y)) (cells ! (2 * y + 1))) [0..<n]))
                 (drop (2 * n) cells @ r1 # r2 # r3 # rest)
           else
             cur (pre @ L l1 l2 @ concat (map (\<lambda>y. W y (cells ! (2 * y)) (cells ! (2 * y + 1))) [0..<m])
                      @ R r1 r2 r3) rest)"
  using n
proof (induction n)
  case 0
  then show ?case by simp
next
  case (Suc n)
  let ?g = "\<lambda>n. concat (map (\<lambda>y. W y (cells ! (2 * y)) (cells ! (2 * y + 1))) [0..<n])"
  let ?tail = "r1 # r2 # r3 # rest"
  from Suc.prems have nm: "n < m" by simp
  with len have idx: "2 * n + 1 < length cells" by simp
  have start: "for_loop n body (cur pre (l1 # l2 # cells @ ?tail)) \<bind> (\<lambda>kb. if n = 0 then A kb else Some kb)
      = Some (cur (pre @ L l1 l2 @ ?g n) (drop (2 * n) cells @ ?tail))"
    using Suc.IH nm by (simp add: A)
  have cell: "B n (cur (pre @ L l1 l2 @ ?g n) (drop (2 * n) cells @ ?tail))
      = Some (cur (pre @ L l1 l2 @ ?g (Suc n)) (drop (2 * Suc n) cells @ ?tail))"
    using B [OF nm, of "pre @ L l1 l2 @ ?g n"] by (simp add: drop_two [OF idx])
  have stop: "(if Suc n = m then C (cur (pre @ L l1 l2 @ ?g (Suc n)) (drop (2 * Suc n) cells @ ?tail))
               else Some (cur (pre @ L l1 l2 @ ?g (Suc n)) (drop (2 * Suc n) cells @ ?tail)))
      = Some (if Suc n < m then cur (pre @ L l1 l2 @ ?g (Suc n)) (drop (2 * Suc n) cells @ ?tail)
              else cur (pre @ L l1 l2 @ ?g m @ R r1 r2 r3) rest)"
    using nm len C [of "pre @ L l1 l2 @ ?g m" r1 r2 r3 rest] by auto
  have "for_loop (Suc n) body (cur pre (l1 # l2 # cells @ ?tail))
      = for_loop n body (cur pre (l1 # l2 # cells @ ?tail)) \<bind> (\<lambda>kb. if n = 0 then A kb else Some kb)
          \<bind> B n \<bind> (\<lambda>kb. if Suc n = m then C kb else Some kb)"
    by (cases "for_loop n body (cur pre (l1 # l2 # cells @ ?tail))") (simp_all add: body [OF nm])
  also have "\<dots> = Some (if Suc n < m then cur (pre @ L l1 l2 @ ?g (Suc n)) (drop (2 * Suc n) cells @ ?tail)
              else cur (pre @ L l1 l2 @ ?g m @ R r1 r2 r3) rest)"
    by (simp only: start bind.bind_lunit cell stop)
  finally show ?case by simp
qed

lemma row_loop:
  fixes body :: "nat \<Rightarrow> nat \<times> wbuf \<Rightarrow> (nat \<times> wbuf) option"
  assumes body: "\<And>y kb. y < m \<Longrightarrow> body y kb =
        (if y = 0 then A kb else Some kb) \<bind> B y \<bind> (\<lambda>kb. if Suc y = m then C kb else Some kb)"
    and A: "\<And>p u v r. A (cur p (u # v # r)) = Some (cur (p @ L u v) r)"
    and B: "\<And>y p u v r. y < m \<Longrightarrow> B y (cur p (u # v # r)) = Some (cur (p @ W y u v) r)"
    and C: "\<And>p u v w r. C (cur p (u # v # w # r)) = Some (cur (p @ R u v w) r)"
    and len: "length cells = 2 * m"
    and m: "0 < m"
  shows "for_loop m body (cur pre (l1 # l2 # cells @ r1 # r2 # r3 # rest)) =
     Some (cur (pre @ L l1 l2 @ concat (map (\<lambda>y. W y (cells ! (2 * y)) (cells ! (2 * y + 1))) [0..<m])
                      @ R r1 r2 r3) rest)"
  using row_loop_part [of m body A B C L W R cells m pre l1 l2 r1 r2 r3 rest, OF body A B C len] m
  by simp


lemma pairs_concat_take:
  "2 * n \<le> length cells \<Longrightarrow>
   concat (map (\<lambda>y. [cells ! (2 * y), cells ! (2 * y + 1)]) [0..<n]) = take (2 * n) cells"
proof (induction n)
  case 0
  then show ?case by simp
next
  case (Suc n)
  then have a: "2 * n < length cells" and b: "Suc (2 * n) < length cells" by simp_all
  have "take (2 * Suc n) cells = take (2 * n) cells @ [cells ! (2 * n), cells ! (2 * n + 1)]"
    using take_Suc_conv_app_nth [OF a] take_Suc_conv_app_nth [OF b] by simp
  with Suc show ?case by simp
qed

lemma last_cell_iff: "(int y = uint (w :: U) - 1) = (Suc y = unat w)"
proof -
  have "uint w = int (unat w)" by (rule uint_nat)
  then show ?thesis by linarith
qed

text \<open>One row of the first rendering: the borders are stored, the cells are kept.\<close>

lemma draw_all_row:
  assumes "length cells = 2 * unat (ysz s)" and "0 < unat (ysz s)"
  shows "for_loop (unat (ysz s)) (draw_all_cell s x) (cur pre (l1 # l2 # cells @ r1 # r2 # r3 # rest)) =
     Some (cur (pre @ [Some shade, Some shade] @ cells @ [Some shade, Some shade, Some newline]) rest)"
proof -
  have "for_loop (unat (ysz s)) (draw_all_cell s x) (cur pre (l1 # l2 # cells @ r1 # r2 # r3 # rest)) =
     Some (cur (pre @ [Some shade, Some shade]
                 @ concat (map (\<lambda>y. [cells ! (2 * y), cells ! (2 * y + 1)]) [0..<unat (ysz s)])
                 @ [Some shade, Some shade, Some newline]) rest)"
  proof (rule row_loop [where A = border and B = "\<lambda>y. skip 2" and C = "\<lambda>kb. border kb \<bind> put newline"
          and L = "\<lambda>u v. [Some shade, Some shade]" and W = "\<lambda>y u v. [u, v]"
          and R = "\<lambda>u v w. [Some shade, Some shade, Some newline]"])
    show "draw_all_cell s x y kb =
        (if y = 0 then border kb else Some kb) \<bind> (\<lambda>y. skip 2) y
          \<bind> (\<lambda>kb. if Suc y = unat (ysz s) then border kb \<bind> put newline else Some kb)" for y kb
      by (simp add: draw_all_cell_def last_cell_iff)
    show "border (cur p (u # v # r)) = Some (cur (p @ [Some shade, Some shade]) r)" for p u v r
      by (rule border_cur)
    show "skip 2 (cur p (u # v # r)) = Some (cur (p @ [u, v]) r)" for p u v r
      using skip_cur [of "[u, v]" 2 p r] by simp
    show "border (cur p (u # v # w # r)) \<bind> put newline
        = Some (cur (p @ [Some shade, Some shade, Some newline]) r)" for p u v w r
      by (simp add: border_cur put_cur)
  qed (use assms in simp_all)
  then show ?thesis using assms pairs_concat_take [of "unat (ysz s)" cells] by simp
qed

text \<open>The glyphs of a cell, as the chain of comparisons stores them.\<close>

lemma draw_cell_glyph:
  assumes "snake s = front # body"
  shows "(if front = hold then put full_block (cur p (u # v # r)) \<bind> put full_block
          else if find' s hold then put full_block (cur p (u # v # r)) \<bind> put full_block
          else if hold = food s then put circle (cur p (u # v # r)) \<bind> put space
          else put space (cur p (u # v # r)) \<bind> put space)
         = Some (cur (p @ glyph s hold) r)"
  using assms by (auto simp: put_cur glyph_def find'_def list_ex_iff)

lemma draw_cells_row:
  assumes "snake s = front # body"
    and "length cells = 2 * unat (ysz s)" and "0 < unat (ysz s)"
  shows "for_loop (unat (ysz s)) (draw_cell s x) (cur pre (l1 # l2 # cells @ r1 # r2 # r3 # rest)) =
     Some (cur (pre @ [l1, l2] @ glyph_row s x @ [r1, r2, r3]) rest)"
  unfolding glyph_row_def
proof (rule row_loop [where A = "skip 2"
          and B = "\<lambda>y kb. (if front = Cell (of_nat x) (of_nat y) then put full_block kb \<bind> put full_block
                   else if find' s (Cell (of_nat x) (of_nat y)) then put full_block kb \<bind> put full_block
                   else if Cell (of_nat x) (of_nat y) = food s then put circle kb \<bind> put space
                   else put space kb \<bind> put space)"
          and C = "skip 3"
          and L = "\<lambda>u v. [u, v]" and W = "\<lambda>y u v. glyph s (Cell (of_nat x) (of_nat y))"
          and R = "\<lambda>u v w. [u, v, w]" and cells = cells])
  show "draw_cell s x y kb =
      (if y = 0 then skip 2 kb else Some kb)
        \<bind> (\<lambda>kb. (if front = Cell (of_nat x) (of_nat y) then put full_block kb \<bind> put full_block
                   else if find' s (Cell (of_nat x) (of_nat y)) then put full_block kb \<bind> put full_block
                   else if Cell (of_nat x) (of_nat y) = food s then put circle kb \<bind> put space
                   else put space kb \<bind> put space))
        \<bind> (\<lambda>kb. if Suc y = unat (ysz s) then skip 3 kb else Some kb)" for y kb
    by (simp add: draw_cell_def assms(1) last_cell_iff Let_def)
  show "skip 2 (cur p (u # v # r)) = Some (cur (p @ [u, v]) r)" for p u v r
    using skip_cur [of "[u, v]" 2 p r] by simp
  show "(if front = Cell (of_nat x) (of_nat y) then put full_block (cur p (u # v # r)) \<bind> put full_block
          else if find' s (Cell (of_nat x) (of_nat y)) then put full_block (cur p (u # v # r)) \<bind> put full_block
          else if Cell (of_nat x) (of_nat y) = food s then put circle (cur p (u # v # r)) \<bind> put space
          else put space (cur p (u # v # r)) \<bind> put space)
         = Some (cur (p @ glyph s (Cell (of_nat x) (of_nat y))) r)" for y p u v r
    by (rule draw_cell_glyph [OF assms(1)])
  show "skip 3 (cur p (u # v # w # r)) = Some (cur (p @ [u, v, w]) r)" for p u v w r
    using skip_cur [of "[u, v, w]" 3 p r] by simp
qed (use assms in simp_all)

text \<open>The loop over the rows.\<close>

lemma rows_loop:
  fixes rowf :: "nat \<Rightarrow> nat \<times> wbuf \<Rightarrow> (nat \<times> wbuf) option"
  assumes row: "\<And>x p r. x < n \<Longrightarrow> rowf x (cur p (old x @ r)) = Some (cur (p @ new x) r)"
    and k: "k \<le> n"
  shows "for_loop k rowf (cur pre (concat (map old [0..<n]) @ rest)) =
     Some (cur (pre @ concat (map new [0..<k])) (concat (map old [k..<n]) @ rest))"
  using k
proof (induction k)
  case 0
  then show ?case by simp
next
  case (Suc k)
  then have kn: "k < n" by simp
  then have "[k..<n] = k # [Suc k..<n]" by (rule upt_conv_Cons)
  with Suc.IH kn row [OF kn, of "pre @ concat (map new [0..<k])" "concat (map old [Suc k..<n]) @ rest"]
  show ?case by simp
qed


lemma length_concat_rows:
  "(\<And>x. x < n \<Longrightarrow> length (f x) = c) \<Longrightarrow> length (concat (map f [0..<n])) = n * c"
  by (induction n) simp_all

lemma all_None: "(\<And>u. u \<in> set xs \<Longrightarrow> u = None) \<Longrightarrow> xs = replicate (length xs) None"
  by (induction xs) auto

lemma LENGTH'_eq: "LENGTH' X Y = (unat X + 2) * (2 * unat Y + 5)"
  by (simp add: LENGTH'_def push_bit_eq_mult algebra_simps)

lemma border_row_eq:
  "border_row s = replicate (2 * Suc (unat (ysz s))) (Some shade) @ [Some shade, Some shade, Some newline]"
  by (simp add: border_row_def replicate_plus4 replicate_two)

lemma length_layout:
  assumes "\<And>x. x < unat (xsz s) \<Longrightarrow> length (cells x) = 2 * unat (ysz s)"
  shows "length (layout s cells) = LENGTH' (xsz s) (ysz s) + 1"
proof -
  have "length (concat (map (\<lambda>x. [Some shade, Some shade] @ cells x @ [Some shade, Some shade, Some newline])
                 [0..<unat (xsz s)])) = unat (xsz s) * (2 * unat (ysz s) + 5)"
    by (rule length_concat_rows) (simp add: assms)
  then show ?thesis
    by (simp add: layout_def border_row_def LENGTH'_eq algebra_simps)
qed

text \<open>The top and the bottom row of the first rendering.\<close>

lemma draw_border_row:
  assumes "length mid = 2 * Suc (unat (ysz s))"
  shows "for_loop (Suc (unat (ysz s))) (\<lambda>y. border) (cur pre (mid @ u # v # w # rest))
           \<bind> border \<bind> put newline
         = Some (cur (pre @ border_row s) rest)"
  using border_loop [OF assms, of pre "u # v # w # rest"]
  by (simp add: border_cur put_cur border_row_eq del: for_loop.simps replicate.simps)

text \<open>The first rendering returns \<^verbatim>\<open>k = LENGTH(xsz, ysz)\<close> and the buffer with the
  borders, the newlines and the terminator stored and no cell stored to.\<close>

lemma draw_all_layout:
  assumes "0 < unat (ysz s)"
  shows "draw_all s = Some (LENGTH' (xsz s) (ysz s), layout s (unwritten_row s))"
proof -
  let ?m = "unat (ysz s)" and ?n = "unat (xsz s)"
  let ?mid = "replicate (2 * Suc ?m) (None :: wchar option)"
  let ?old = "\<lambda>x :: nat. None # None # replicate (2 * ?m) (None :: wchar option) @ [None, None, None]"
  let ?new = "\<lambda>x. [Some shade, Some shade] @ unwritten_row s x @ [Some shade, Some shade, Some newline]"
  let ?bottom = "?mid @ None # None # None # [None]"
  let ?blank = "?mid @ None # None # None # concat (map ?old [0..<?n]) @ ?bottom"
  have "length (concat (map ?old [0..<?n])) = ?n * (2 * ?m + 5)"
    by (rule length_concat_rows) simp
  then have len: "length ?blank = LENGTH' (xsz s) (ysz s) + 1"
    by (simp add: LENGTH'_eq algebra_simps)
  have "?blank = replicate (length ?blank) None"
    by (rule all_None) (auto split: if_splits)
  with len have start: "(0, replicate (LENGTH' (xsz s) (ysz s) + 1) None) = cur [] ?blank"
    by (simp only: cur_def list.size append_Nil)
  have top: "for_loop (Suc ?m) (\<lambda>y. border) (cur [] ?blank) \<bind> border \<bind> put newline
      = Some (cur ([] @ border_row s) (concat (map ?old [0..<?n]) @ ?bottom))"
    by (rule draw_border_row) simp
  have rows: "for_loop ?n (\<lambda>x. for_loop ?m (draw_all_cell s x))
        (cur ([] @ border_row s) (concat (map ?old [0..<?n]) @ ?bottom))
      = Some (cur (([] @ border_row s) @ concat (map ?new [0..<?n])) (concat (map ?old [?n..<?n]) @ ?bottom))"
  proof (rule rows_loop)
    show "for_loop ?m (draw_all_cell s x) (cur p (?old x @ r)) = Some (cur (p @ ?new x) r)" for x p r
      using draw_all_row [of "replicate (2 * ?m) None" s x p None None None None None r] assms
      by (simp add: unwritten_row_def)
  qed simp
  have bottom: "for_loop (Suc ?m) (\<lambda>y. border)
        (cur (([] @ border_row s) @ concat (map ?new [0..<?n])) (concat (map ?old [?n..<?n]) @ ?bottom))
        \<bind> border \<bind> put newline
      = Some (cur ((([] @ border_row s) @ concat (map ?new [0..<?n])) @ border_row s) [None])"
    using draw_border_row [of ?mid s "([] @ border_row s) @ concat (map ?new [0..<?n])" None None None "[None]"]
    by simp
  have final: "(case cur p [None] of (k, b) \<Rightarrow> if k < length b then Some (k, b[k := Some NUL]) else None)
      = Some (length p, p @ [Some NUL])" for p :: wbuf
    by (simp add: cur_def)
  have "draw_all s =
      for_loop (Suc ?m) (\<lambda>y. border) (cur [] ?blank) \<bind> border \<bind> put newline
        \<bind> for_loop ?n (\<lambda>x. for_loop ?m (draw_all_cell s x))
        \<bind> (\<lambda>kb. for_loop (Suc ?m) (\<lambda>y. border) kb \<bind> border \<bind> put newline)
        \<bind> (\<lambda>kb. case kb of (k, b) \<Rightarrow> if k < length b then Some (k, b[k := Some NUL]) else None)"
    unfolding draw_all_def start by (simp del: for_loop.simps replicate.simps)
  also have "\<dots> = Some (length ((([] @ border_row s) @ concat (map ?new [0..<?n])) @ border_row s),
                        ((([] @ border_row s) @ concat (map ?new [0..<?n])) @ border_row s) @ [Some NUL])"
    by (simp only: top bind.bind_lunit rows bottom final)
  also have "((([] @ border_row s) @ concat (map ?new [0..<?n])) @ border_row s) @ [Some NUL]
      = layout s (unwritten_row s)"
    by (simp add: layout_def)
  finally have res: "draw_all s = Some (length ((([] @ border_row s) @ concat (map ?new [0..<?n])) @ border_row s),
      layout s (unwritten_row s))" .
  have "length (layout s (unwritten_row s)) = LENGTH' (xsz s) (ysz s) + 1"
    by (rule length_layout) (simp add: unwritten_row_def)
  then have "length ((([] @ border_row s) @ concat (map ?new [0..<?n])) @ border_row s) = LENGTH' (xsz s) (ysz s)"
    by (simp add: layout_def)
  with res show ?thesis by simp
qed


lemma length_glyph_row: "length (glyph_row s x) = 2 * unat (ysz s)"
proof -
  have "length (concat (map (\<lambda>y. glyph s (Cell (of_nat x) (of_nat y))) [0..<unat (ysz s)]))
      = unat (ysz s) * 2"
    by (rule length_concat_rows) (simp add: glyph_def)
  then show ?thesis by (simp add: glyph_row_def)
qed

text \<open>The incremental rendering of a buffer that has the layout of the board: the units
  of the cells become the glyphs of the state, all other units stay.\<close>

lemma draw_cells_layout:
  assumes "snake s = front # body" and "0 < unat (ysz s)"
    and "buffer s = layout s cells"
    and "\<And>x. x < unat (xsz s) \<Longrightarrow> length (cells x) = 2 * unat (ysz s)"
  shows "draw_cells s = Some (Suc (unat (xsz s)) * (2 * unat (ysz s) + 5), layout s (glyph_row s))"
proof -
  let ?m = "unat (ysz s)" and ?n = "unat (xsz s)"
  let ?old = "\<lambda>x. Some shade # Some shade # cells x @ Some shade # Some shade # Some newline # []"
  let ?new = "\<lambda>x. [Some shade, Some shade] @ glyph_row s x @ [Some shade, Some shade, Some newline]"
  let ?bottom = "border_row s @ [Some NUL]"
  have k0: "length (border_row s) = 2 * ?m + 5"
    by (simp add: border_row_def)
  have start: "(push_bit 1 (?m + 1) + 3, buffer s) = cur (border_row s) (concat (map ?old [0..<?n]) @ ?bottom)"
    by (simp add: k0 cur_def assms(3) layout_def push_bit_eq_mult)
  have rows: "for_loop ?n (\<lambda>x. for_loop ?m (draw_cell s x))
        (cur (border_row s) (concat (map ?old [0..<?n]) @ ?bottom))
      = Some (cur (border_row s @ concat (map ?new [0..<?n])) (concat (map ?old [?n..<?n]) @ ?bottom))"
  proof (rule rows_loop)
    show "for_loop ?m (draw_cell s x) (cur p (?old x @ r)) = Some (cur (p @ ?new x) r)" if "x < ?n" for x p r
      using draw_cells_row [OF assms(1) assms(4) [OF that] assms(2), of x p "Some shade" "Some shade"
          "Some shade" "Some shade" "Some newline" r]
      by simp
  qed simp
  have "length (concat (map ?new [0..<?n])) = ?n * (2 * ?m + 5)"
    by (rule length_concat_rows) (simp add: length_glyph_row)
  then have "cur (border_row s @ concat (map ?new [0..<?n])) (concat (map ?old [?n..<?n]) @ ?bottom)
      = (Suc ?n * (2 * ?m + 5), layout s (glyph_row s))"
    by (simp add: cur_def layout_def border_row_def)
  with rows show ?thesis
    unfolding draw_cells_def start by simp
qed

section \<open>Calls of \<^verbatim>\<open>to_wstr\<close> and \<^verbatim>\<open>move\<close> as a whole\<close>

lemma layout_fields: "xsz s' = xsz s \<Longrightarrow> ysz s' = ysz s \<Longrightarrow> layout s' = layout s"
  by (simp add: layout_def border_row_def fun_eq_iff)

lemma unwritten_row_fields: "ysz s' = ysz s \<Longrightarrow> unwritten_row s' = unwritten_row s"
  by (rule ext) (simp add: unwritten_row_def)

lemma to_wstr_True:
  assumes "0 < unat (ysz s)"
  shows "to_wstr True s = Some (s\<lparr>buffer := layout s (unwritten_row s), length' := LENGTH' (xsz s) (ysz s)\<rparr>)"
  by (simp add: to_wstr_def draw_all_layout [OF assms])

lemma to_wstr_False:
  assumes "snake s = front # body" and "0 < unat (ysz s)" and "framed s"
  shows "to_wstr False s = Some (s\<lparr>buffer := layout s (glyph_row s)\<rparr>)"
proof -
  from assms(3) obtain cells where "buffer s = layout s cells"
    and "\<And>x. x < unat (xsz s) \<Longrightarrow> length (cells x) = 2 * unat (ysz s)"
    unfolding framed_def by blast
  from draw_cells_layout [OF assms(1,2) this] show ?thesis
    by (simp add: to_wstr_def)
qed

lemma framed_layout:
  assumes "xsz s' = xsz s" and "ysz s' = ysz s" and "buffer s' = layout s cells"
    and "\<And>x. length (cells x) = 2 * unat (ysz s)"
  shows "framed s'"
  unfolding framed_def using assms layout_fields [OF assms(1,2)] by auto

text \<open>What a call of \<^verbatim>\<open>to_wstr\<close> changes: the buffer and, in the first call, its length.\<close>

lemma to_wstr_fields:
  assumes "to_wstr b s = Some s'"
  shows "snake s' = snake s \<and> food s' = food s \<and> xsz s' = xsz s \<and> ysz s' = ysz s
         \<and> lv_food s' = lv_food s \<and> score s' = score s \<and> prv_mv s' = prv_mv s \<and> rng s' = rng s"
  using assms by (auto simp: to_wstr_def split: if_splits)

text \<open>The four ways in which \<^verbatim>\<open>move\<close> returns.\<close>

lemma move_result:
  assumes "move rnd mv s = Some (Inr (st, s'))"
  obtains (bounds) front rest where "snake s = front # rest"
      and "\<not> in_grid s (candidate front (locked s mv))" and "st = LOST" and "s' = s"
    | (self) front rest where "snake s = front # rest"
      and "in_grid s (candidate front (locked s mv))"
      and "step_head front (locked s mv) \<in> set rest"
      and "st = LOST" and "s' = s\<lparr>snake := step_head front (locked s mv) # rest\<rparr>"
    | (eat) front rest s3 where "snake s = front # rest"
      and "in_grid s (candidate front (locked s mv))"
      and "step_head front (locked s mv) \<notin> set rest"
      and "step_head front (locked s mv) = food s"
      and "addnewfood rnd (grown s (step_head front (locked s mv))) = Some s3"
      and "st = (if lv_food s3 - 1 = 0 then WIN else NONE)"
      and "s' = (if lv_food s3 - 1 = 0 then s3\<lparr>lv_food := lv_food s3 - 1\<rparr>
                 else s3\<lparr>lv_food := lv_food s3 - 1, prv_mv := locked s mv\<rparr>)"
    | (step) front rest where "snake s = front # rest"
      and "in_grid s (candidate front (locked s mv))"
      and "step_head front (locked s mv) \<notin> set rest"
      and "step_head front (locked s mv) \<noteq> food s"
      and "st = NONE"
      and "s' = s\<lparr>snake := step_head front (locked s mv) # butlast (snake s), prv_mv := locked s mv\<rparr>"
proof (cases "snake s")
  case Nil
  with assms show ?thesis by (simp add: move_def move_dir_def)
next
  case (Cons front rest)
  show ?thesis
  proof (cases "in_grid s (candidate front (locked s mv))")
    case False
    with assms Cons have "st = LOST" and "s' = s"
      by (simp_all add: move_def move_dir_LOST_bounds)
    then show ?thesis by (rule bounds [OF Cons False])
  next
    case True
    show ?thesis
    proof (cases "step_head front (locked s mv) \<in> set rest")
      case hit: True
      with assms Cons True have "st = LOST"
        and "s' = s\<lparr>snake := step_head front (locked s mv) # rest\<rparr>"
        by (simp_all add: move_def move_dir_LOST_self)
      then show ?thesis by (rule self [OF Cons True hit])
    next
      case False
      note free = move_dir_free [OF Cons True False, of rnd]
      show ?thesis
      proof (cases "step_head front (locked s mv) = food s")
        case food: True
        with assms free obtain s3 where
          s3: "addnewfood rnd (grown s (step_head front (locked s mv))) = Some s3"
          by (auto simp: move_def split: option.splits)
        with assms free food have "st = (if lv_food s3 - 1 = 0 then WIN else NONE)"
          and "s' = (if lv_food s3 - 1 = 0 then s3\<lparr>lv_food := lv_food s3 - 1\<rparr>
                 else s3\<lparr>lv_food := lv_food s3 - 1, prv_mv := locked s mv\<rparr>)"
          by (auto simp: move_def split: if_splits)
        then show ?thesis by (rule eat [OF Cons True False food s3])
      next
        case nofood: False
        with assms free have "st = NONE"
          and "s' = s\<lparr>snake := step_head front (locked s mv) # butlast (snake s), prv_mv := locked s mv\<rparr>"
          by (auto simp: move_def)
        then show ?thesis by (rule step [OF Cons True False nofood])
      qed
    qed
  qed
qed

text \<open>\<^verbatim>\<open>move\<close> leaves the sizes, the buffer and its length as they are, and the snake
  keeps a head.\<close>

lemma move_keeps:
  assumes "move rnd mv s = Some (Inr (st, s'))"
  shows "xsz s' = xsz s \<and> ysz s' = ysz s \<and> buffer s' = buffer s \<and> length' s' = length' s
         \<and> snake s \<noteq> [] \<and> snake s' \<noteq> []"
  using assms
proof (cases rule: move_result)
  case (eat front rest s3)
  from eat(5) obtain n where
    "s3 = grown s (step_head front (locked s mv))\<lparr>food := nth_draw rnd (grown s (step_head front (locked s mv))) n,
        rng := rng (grown s (step_head front (locked s mv))) + 2 * Suc n\<rparr>"
    by (rule addnewfood_Some)
  with eat show ?thesis by (simp add: grown_def)
qed simp_all

lemma SEngine_Inr:
  assumes "SEngine rnd X Y F S = Some (Inr s)"
  obtains s1 where "\<not> X < 9" and "\<not> Y < 9" and "F \<noteq> 0"
    and "addnewfood rnd (initial X Y F S) = Some s1"
    and "to_wstr True (s1\<lparr>prv_mv := LEFT\<rparr>) = Some s"
  using assms by (auto simp: SEngine_def split: if_splits option.splits)

lemma addnewfood_fields:
  assumes "addnewfood rnd s = Some s'"
  shows "snake s' = snake s \<and> xsz s' = xsz s \<and> ysz s' = ysz s \<and> lv_food s' = lv_food s
         \<and> score s' = score s \<and> prv_mv s' = prv_mv s \<and> buffer s' = buffer s \<and> length' s' = length' s
         \<and> food s' \<notin> set (snake s')"
proof -
  from assms obtain n where "s' = s\<lparr>food := nth_draw rnd s n, rng := rng s + 2 * Suc n\<rparr>"
    and "food s' \<notin> set (snake s')" by (rule addnewfood_Some)
  then show ?thesis by simp
qed

lemma word_pred_zero: "((w :: U) - 1 = 0) = (w = 1)"
  by auto


lemma not_less_9: "\<not> (w :: U) < 9 \<Longrightarrow> 9 \<le> unat w"
  by (simp add: word_less_nat_alt)

lemma framed_keeps:
  assumes "framed s" and "xsz s' = xsz s" and "ysz s' = ysz s" and "buffer s' = buffer s"
  shows "framed s'"
  using assms layout_fields [OF assms(2,3)] unfolding framed_def by auto

text \<open>What holds of the sizes and the buffer in every state of an engine in use.\<close>

lemma reachable_inv:
  assumes "reachable rnd s"
  shows "9 \<le> unat (xsz s) \<and> 9 \<le> unat (ysz s) \<and> snake s \<noteq> [] \<and> framed s
         \<and> length' s = LENGTH' (xsz s) (ysz s)"
  using assms
proof (induction rule: reachable.induct)
  case (constructed X Y F S s)
  from constructed obtain s1 where X: "\<not> X < 9" and Y: "\<not> Y < 9"
    and s1: "addnewfood rnd (initial X Y F S) = Some s1"
    and s: "to_wstr True (s1\<lparr>prv_mv := LEFT\<rparr>) = Some s"
    by (rule SEngine_Inr)
  from s1 obtain n where s1': "s1 = initial X Y F S\<lparr>food := nth_draw rnd (initial X Y F S) n,
      rng := rng (initial X Y F S) + 2 * Suc n\<rparr>" by (rule addnewfood_Some)
  then have f: "xsz s1 = X" "ysz s1 = Y" "snake s1 \<noteq> []" by (simp_all add: initial_def)
  from not_less_9 [OF X] not_less_9 [OF Y] have XY: "9 \<le> unat X" "9 \<le> unat Y" .
  then have "0 < unat (ysz (s1\<lparr>prv_mv := LEFT\<rparr>))" using f by simp
  from to_wstr_True [OF this] s
  have s': "s = s1\<lparr>prv_mv := LEFT, buffer := layout s1 (unwritten_row s1), length' := LENGTH' X Y\<rparr>"
    using f layout_fields [of "s1\<lparr>prv_mv := LEFT\<rparr>" s1]
      unwritten_row_fields [of "s1\<lparr>prv_mv := LEFT\<rparr>" s1] by simp
  have "framed s"
    by (rule framed_layout [where s = s1 and cells = "unwritten_row s1"]) (simp_all add: s' unwritten_row_def)
  with s' f XY show ?case by simp
next
  case (moved s mv s')
  from move_keeps [OF moved(2)] moved(3) framed_keeps [of s s'] show ?case by simp
next
  case (rendered s b s')
  then obtain front body where sn: "snake s = front # body" by (cases "snake s") auto
  from rendered have pos: "0 < unat (ysz s)" by simp
  show ?case
  proof (cases b)
    case True
    with rendered(2) to_wstr_True [OF pos]
    have s': "s' = s\<lparr>buffer := layout s (unwritten_row s), length' := LENGTH' (xsz s) (ysz s)\<rparr>" by simp
    have "framed s'"
      by (rule framed_layout [where s = s and cells = "unwritten_row s"]) (simp_all add: s' unwritten_row_def)
    with s' rendered(3) show ?thesis by simp
  next
    case False
    with rendered to_wstr_False [OF sn pos]
    have s': "s' = s\<lparr>buffer := layout s (glyph_row s)\<rparr>" by simp
    have "framed s'"
      by (rule framed_layout [where s = s and cells = "glyph_row s"]) (simp_all add: s' length_glyph_row)
    with s' rendered(3) show ?thesis by simp
  qed
qed


text \<open>The same for the states of an engine of the sizes \<open>X\<close> and \<open>Y\<close> after any calls that
  returned; every state reached by moves that returned \<^verbatim>\<open>NONE\<close> is one of them.\<close>

lemma in_use_inv:
  assumes "in_use rnd X Y s"
  shows "xsz s = X \<and> ysz s = Y \<and> 9 \<le> unat X \<and> 9 \<le> unat Y \<and> snake s \<noteq> [] \<and> framed s
         \<and> length' s = LENGTH' X Y"
  using assms
proof (induction rule: in_use.induct)
  case (built F S s)
  from built obtain s1 where X: "\<not> X < 9" and Y: "\<not> Y < 9"
    and s1: "addnewfood rnd (initial X Y F S) = Some s1"
    and s: "to_wstr True (s1\<lparr>prv_mv := LEFT\<rparr>) = Some s"
    by (rule SEngine_Inr)
  from s1 obtain n where s1': "s1 = initial X Y F S\<lparr>food := nth_draw rnd (initial X Y F S) n,
      rng := rng (initial X Y F S) + 2 * Suc n\<rparr>" by (rule addnewfood_Some)
  then have f: "xsz s1 = X" "ysz s1 = Y" "snake s1 \<noteq> []" by (simp_all add: initial_def)
  from not_less_9 [OF X] not_less_9 [OF Y] have XY: "9 \<le> unat X" "9 \<le> unat Y" .
  then have "0 < unat (ysz (s1\<lparr>prv_mv := LEFT\<rparr>))" using f by simp
  from to_wstr_True [OF this] s
  have s': "s = s1\<lparr>prv_mv := LEFT, buffer := layout s1 (unwritten_row s1), length' := LENGTH' X Y\<rparr>"
    using f layout_fields [of "s1\<lparr>prv_mv := LEFT\<rparr>" s1]
      unwritten_row_fields [of "s1\<lparr>prv_mv := LEFT\<rparr>" s1] by simp
  have "framed s"
    by (rule framed_layout [where s = s1 and cells = "unwritten_row s1"]) (simp_all add: s' unwritten_row_def)
  with s' f XY show ?case by simp
next
  case (after_move s mv st s')
  from move_keeps [OF after_move(2)] after_move(3) framed_keeps [of s s'] show ?case by simp
next
  case (after_render s b s')
  then obtain front body where sn: "snake s = front # body" by (cases "snake s") auto
  from after_render have pos: "0 < unat (ysz s)" by simp
  show ?case
  proof (cases b)
    case True
    with after_render(2) to_wstr_True [OF pos]
    have s': "s' = s\<lparr>buffer := layout s (unwritten_row s), length' := LENGTH' (xsz s) (ysz s)\<rparr>" by simp
    have "framed s'"
      by (rule framed_layout [where s = s and cells = "unwritten_row s"]) (simp_all add: s' unwritten_row_def)
    with s' after_render(3) show ?thesis by simp
  next
    case False
    with after_render to_wstr_False [OF sn pos]
    have s': "s' = s\<lparr>buffer := layout s (glyph_row s)\<rparr>" by simp
    have "framed s'"
      by (rule framed_layout [where s = s and cells = "glyph_row s"]) (simp_all add: s' length_glyph_row)
    with s' after_render(3) show ?thesis by simp
  qed
qed

lemma reachable_in_use: "reachable rnd s \<Longrightarrow> \<exists>X Y. in_use rnd X Y s"
  by (induction rule: reachable.induct) (blast intro: in_use.intros)+

section \<open>The example states\<close>

lemma unat_small: "k < 256 \<Longrightarrow> unat (of_nat k :: U) = k"
  by (simp add: unat_of_nat)

lemma game9_draw:
  "addnewfood rnd_retry (grown (game9\<lparr>lv_food := F, score := S\<rparr>) (Cell 4 3))
     = Some (game9\<lparr>lv_food := F, score := S + 1, snake := [Cell 4 3, Cell 4 4, Cell 4 5],
                    food := Cell 2 2, rng := 4\<rparr>)"
  apply (subst addnewfood.simps)
  apply (simp add: draw_food_def generate_def game9_def rnd_retry_def grown_def)
  apply (subst addnewfood.simps)
  apply (simp add: draw_food_def generate_def game9_def rnd_retry_def grown_def)
  done

lemma game9_eats:
  "move rnd_retry LEFT (game9\<lparr>lv_food := F, score := S\<rparr>)
     = Some (Inr (if F - 1 = 0
                  then (WIN, game9\<lparr>lv_food := F - 1, score := S + 1, snake := [Cell 4 3, Cell 4 4, Cell 4 5],
                                     food := Cell 2 2, rng := 4\<rparr>)
                  else (NONE, game9\<lparr>lv_food := F - 1, score := S + 1, snake := [Cell 4 3, Cell 4 4, Cell 4 5],
                                      food := Cell 2 2, rng := 4\<rparr>)))"
proof -
  let ?s = "game9\<lparr>lv_food := F, score := S\<rparr>"
  have sn: "snake ?s = Cell 4 4 # [Cell 4 5]" by (simp add: game9_def)
  have l: "locked ?s LEFT = LEFT" by (simp add: locked_def areOpposite_def game9_def)
  have g: "in_grid ?s (candidate (Cell 4 4) LEFT)" by (simp add: in_grid_def candidate_def game9_def)
  have h: "step_head (Cell 4 4) LEFT = Cell 4 3" by (simp add: step_head_def)
  have f: "food ?s = Cell 4 3" by (simp add: game9_def)
  from move_dir_free [OF sn g, of rnd_retry] show ?thesis
    by (simp add: move_def l h f game9_draw) (simp add: game9_def)
qed


lemma built9_constructed: "SEngine rnd_retry 9 9 2 0 = Some (Inr built9)"
proof -
  have i: "initial 9 9 2 0 = game9\<lparr>food := Cell 0 0, prv_mv := UP\<rparr>"
    by (simp add: initial_def game9_def)
  have a: "addnewfood rnd_retry (game9\<lparr>food := Cell 0 0, prv_mv := UP\<rparr>)
      = Some (game9\<lparr>food := Cell 2 2, prv_mv := UP, rng := 4\<rparr>)"
    apply (subst addnewfood.simps)
    apply (simp add: draw_food_def generate_def game9_def rnd_retry_def)
    apply (subst addnewfood.simps)
    apply (simp add: draw_food_def generate_def game9_def rnd_retry_def)
    done
  have "0 < unat (ysz (game9\<lparr>food := Cell 2 2, rng := 4, prv_mv := LEFT\<rparr>))" by (simp add: game9_def)
  from to_wstr_True [OF this]
  have "to_wstr True (game9\<lparr>food := Cell 2 2, rng := 4, prv_mv := LEFT\<rparr>) = Some built9"
    using layout_fields [of "game9\<lparr>food := Cell 2 2, rng := 4, prv_mv := LEFT\<rparr>" game9]
      unwritten_row_fields [of "game9\<lparr>food := Cell 2 2, rng := 4, prv_mv := LEFT\<rparr>" game9]
    by (simp add: built9_def) (simp add: game9_def LENGTH'_eq)
  with a show ?thesis by (simp add: SEngine_def i)
qed


text \<open>The example board is rendered by the caller and then moved to the left.\<close>

lemma framed_built9: "framed built9"
  by (rule framed_layout [where s = game9 and cells = "unwritten_row game9"])
    (simp_all add: built9_def unwritten_row_def)

lemma shown9_rendered: "to_wstr False built9 = Some shown9"
proof -
  have "snake built9 = Cell 4 4 # [Cell 4 5]" and "0 < unat (ysz built9)"
    by (simp_all add: built9_def game9_def)
  from to_wstr_False [OF this framed_built9] show ?thesis by (simp add: shown9_def)
qed

lemma shown9_reachable: "reachable rnd_retry shown9"
  using reachable.constructed [OF built9_constructed] shown9_rendered by (rule reachable.rendered)

lemma shown9_moves: "move rnd_retry LEFT shown9 = Some (Inr (NONE, moved9))"
proof -
  have sn: "snake shown9 = Cell 4 4 # [Cell 4 5]" by (simp add: shown9_def built9_def game9_def)
  have l: "locked shown9 LEFT = LEFT"
    by (simp add: locked_def areOpposite_def shown9_def built9_def game9_def)
  have g: "in_grid shown9 (candidate (Cell 4 4) LEFT)"
    by (simp add: in_grid_def candidate_def shown9_def built9_def game9_def)
  have h: "step_head (Cell 4 4) LEFT = Cell 4 3" by (simp add: step_head_def)
  have f: "food shown9 = Cell 2 2" "prv_mv shown9 = LEFT" by (simp_all add: shown9_def built9_def game9_def)
  from move_dir_free [OF sn g, of rnd_retry] show ?thesis
    by (simp add: move_def l h f sn moved9_def)
qed


text \<open>The board of 9 by 12 cells is built, and won by the first move.\<close>

lemma built12_constructed: "SEngine rnd_near 9 12 1 0 = Some (Inr built12)"
proof -
  have i: "initial 9 12 1 0 = game12\<lparr>food := Cell 0 0, prv_mv := UP, rng := 0\<rparr>"
    by (simp add: initial_def game12_def)
  have a: "addnewfood rnd_near (game12\<lparr>food := Cell 0 0, prv_mv := UP, rng := 0\<rparr>)
      = Some (game12\<lparr>food := Cell 4 5, prv_mv := UP, rng := 2\<rparr>)"
    apply (subst addnewfood.simps)
    apply (simp add: draw_food_def generate_def game12_def rnd_near_def)
    done
  have "0 < unat (ysz (game12\<lparr>food := Cell 4 5, rng := 2, prv_mv := LEFT\<rparr>))" by (simp add: game12_def)
  from to_wstr_True [OF this]
  have "to_wstr True (game12\<lparr>food := Cell 4 5, rng := 2, prv_mv := LEFT\<rparr>) = Some built12"
    using layout_fields [of "game12\<lparr>food := Cell 4 5, rng := 2, prv_mv := LEFT\<rparr>" game12]
      unwritten_row_fields [of "game12\<lparr>food := Cell 4 5, rng := 2, prv_mv := LEFT\<rparr>" game12]
    by (simp add: built12_def) (simp add: game12_def LENGTH'_eq)
  with a show ?thesis by (simp add: SEngine_def i)
qed

lemma built12_wins: "move rnd_near LEFT built12 = Some (Inr (WIN, won12))"
proof -
  have sn: "snake built12 = Cell 4 6 # [Cell 4 7]" by (simp add: built12_def game12_def)
  have l: "locked built12 LEFT = LEFT"
    by (simp add: locked_def areOpposite_def built12_def game12_def)
  have g: "in_grid built12 (candidate (Cell 4 6) LEFT)"
    by (simp add: in_grid_def candidate_def built12_def game12_def)
  have h: "step_head (Cell 4 6) LEFT = Cell 4 5" by (simp add: step_head_def)
  have f: "food built12 = Cell 4 5" by (simp add: built12_def game12_def)
  have a: "addnewfood rnd_near (grown built12 (Cell 4 5))
      = Some (built12\<lparr>snake := [Cell 4 5, Cell 4 6, Cell 4 7], score := 1, food := Cell 2 2, rng := 4\<rparr>)"
    apply (subst addnewfood.simps)
    apply (simp add: draw_food_def generate_def built12_def game12_def rnd_near_def grown_def)
    done
  from move_dir_free [OF sn g, of rnd_near] show ?thesis
    by (simp add: move_def l h f a) (simp add: won12_def built12_def game12_def)
qed

lemma won12_in_use: "in_use rnd_near 9 12 won12"
  using in_use.built [OF built12_constructed] built12_wins by (rule in_use.after_move)

text \<open>The path visits every cell of the board once.\<close>

lemma path9_index:
  assumes "i < 81" and "path9 i = Cell a b"
  shows "i = 9 * unat a + (if even (unat a) then unat b else 8 - unat b)"
proof -
  from assms(1) have d: "i div 9 < 256" and m: "i mod 9 < 256" "8 - i mod 9 < 256" by simp_all
  from assms(2) have "unat a = i div 9"
    and "unat b = (if even (i div 9) then i mod 9 else 8 - i mod 9)"
    using unat_small [OF d] unat_small [OF m(1)] unat_small [OF m(2)]
    by (auto simp: path9_def)
  moreover have "i mod 9 \<le> 8" by simp
  moreover have "i = 9 * (i div 9) + i mod 9" by simp
  ultimately show ?thesis by (simp split: if_splits)
qed

lemma path9_cell:
  assumes "a \<le> 8" and "b \<le> 8"
  obtains i where "i < 81" and "path9 i = Cell a b"
proof -
  from assms have a: "unat a \<le> 8" and b: "unat b \<le> 8" by (simp_all add: word_le_nat_alt)
  define c where "c = (if even (unat a) then unat b else 8 - unat b)"
  define i where "i = 9 * unat a + c"
  from b have c: "c < 9" by (auto simp: c_def)
  then have dv: "i div 9 = unat a" and md: "i mod 9 = c" by (simp_all add: i_def)
  from b have "(if even (unat a) then c else 8 - c) = unat b" by (auto simp: c_def)
  then have "path9 i = Cell (of_nat (unat a)) (of_nat (unat b))"
    unfolding path9_def by (simp only: dv md)
  then have "path9 i = Cell a b" by simp
  moreover from a c have "i < 81" by (simp add: i_def)
  ultimately show ?thesis by (rule that [rotated])
qed

lemma snake_full9: "snake full9 = Cell 8 7 # map path9 (rev [0..<79])"
proof -
  have "(80 :: nat) = Suc 79" by simp
  then have "[0..<80] = [0..<79] @ [79]" by (simp only: upt_Suc) simp
  then show ?thesis by (simp add: full9_def path9_def)
qed

lemma food_full9: "Cell 8 8 \<notin> set (map path9 (rev [0..<79]))"
proof
  assume "Cell 8 8 \<in> set (map path9 (rev [0..<79]))"
  then obtain i where i: "i < 79" and p: "path9 i = Cell 8 8" by auto
  from i have "i < 81" by simp
  from path9_index [OF this p] i show False by simp
qed

lemma board_full9:
  assumes "a \<le> 8" and "b \<le> 8"
  shows "Cell a b \<in> set (snake (grown full9 (Cell 8 8)))"
proof -
  from assms obtain i where i: "i < 81" and p: "path9 i = Cell a b" by (rule path9_cell)
  show ?thesis
  proof (cases "i < 79")
    case True
    then have "path9 i \<in> set (map path9 (rev [0..<79]))" by simp
    with p show ?thesis by (simp add: grown_def snake_full9)
  next
    case False
    with i have "i = 79 \<or> i = 80" by arith
    then have "path9 i = Cell 8 7 \<or> path9 i = Cell 8 8"
      by (auto simp: path9_def)
    with p show ?thesis by (auto simp: grown_def snake_full9)
  qed
qed

text \<open>On this board the last food cannot be eaten: whatever cells of the board the
  source draws, the retry loop finds them on the snake.\<close>

lemma full9_never_returns:
  assumes "\<And>i. rnd i 0 8 \<le> 8"
  shows "move rnd RIGHT full9 = None"
proof -
  have l: "locked full9 RIGHT = RIGHT" by (simp add: locked_def areOpposite_def full9_def)
  have g: "in_grid full9 (candidate (Cell 8 7) RIGHT)"
    by (simp add: in_grid_def candidate_def full9_def)
  have h: "step_head (Cell 8 7) RIGHT = Cell 8 8" by (simp add: step_head_def)
  have f: "food full9 = Cell 8 8" by (simp add: full9_def)
  have "nth_draw rnd (grown full9 (Cell 8 8)) n \<in> set (snake (grown full9 (Cell 8 8)))" for n
    unfolding nth_draw_def generate_def
    using board_full9 [OF assms assms] by (simp add: grown_def full9_def)
  then have "addnewfood rnd (grown full9 (Cell 8 8)) = None" by (rule addnewfood_None)
  with move_dir_free [OF snake_full9 g, of rnd] food_full9 show ?thesis
    by (simp add: move_def l h f)
qed


section \<open>The claims about \<^verbatim>\<open>move\<close>\<close>

text \<open>
  C2. When the unit offset of the requested direction, after the direction lock, takes
  the head to a cell outside \<open>[0, width) \<times> [0, height)\<close>, \<^verbatim>\<open>move\<close> returns
  \<^verbatim>\<open>LOST\<close> and the state is the state before the call in every field.
\<close>

theorem move_out_of_grid_unchanged:
  assumes "snake s = front # rest"
    and "\<not> in_grid s (candidate front (locked s mv))"
  shows "move rnd mv s = Some (Inr (LOST, s))"
  using assms by (simp add: move_def move_dir_LOST_bounds)

theorem move_out_of_grid_unchanged_witness:
  "move rnd_hi DOWN (game9\<lparr>snake := [Cell 0 4, Cell 1 4], prv_mv := UP\<rparr>)
     = Some (Inr (LOST, game9\<lparr>snake := [Cell 0 4, Cell 1 4], prv_mv := UP\<rparr>))
   \<and> locked (game9\<lparr>snake := [Cell 0 4, Cell 1 4], prv_mv := UP\<rparr>) DOWN = UP
   \<and> candidate (Cell 0 4) UP = (-1, 4)"
  using move_out_of_grid_unchanged
    [of "game9\<lparr>snake := [Cell 0 4, Cell 1 4], prv_mv := UP\<rparr>" "Cell 0 4" "[Cell 1 4]" DOWN rnd_hi]
  by (simp add: game9_def locked_def areOpposite_def candidate_def in_grid_def)

text \<open>
  C3. With last accepted direction \<open>d\<close>, a request of the opposite of \<open>d\<close> gives the
  result of a request of \<open>d\<close>: the same status and the same state (or no return in both
  cases). A request equal or perpendicular to \<open>d\<close> is carried out as it is.
\<close>

theorem move_opposite_is_locked:
  "move rnd (opposite (prv_mv s)) s = move rnd (prv_mv s) s
   \<and> (mv = prv_mv s \<or> perpendicular mv (prv_mv s) \<longrightarrow>
        locked s mv = mv \<and> move rnd mv s = move_dir rnd mv s)"
  by (cases mv; cases "prv_mv s") (simp_all add: move_def locked_def areOpposite_iff perpendicular_def)

theorem move_opposite_is_locked_witness:
  "move rnd_hi RIGHT game9 = move rnd_hi LEFT game9
   \<and> perpendicular UP (prv_mv game9) \<and> move rnd_hi UP game9 = move_dir rnd_hi UP game9"
  using move_opposite_is_locked [of rnd_hi game9 UP]
  by (simp add: game9_def perpendicular_def)

text \<open>
  C4. When the move stays inside the grid and the new head equals a cell behind the head
  (so that more than one cell of the snake equals the new head), \<^verbatim>\<open>move\<close> returns
  \<^verbatim>\<open>LOST\<close>. The state keeps the new head; the other cells, the food, the score, the
  remaining food and the last direction are those before the call.
\<close>

theorem move_self_collision:
  assumes "snake s = front # rest"
    and "in_grid s (candidate front (locked s mv))"
    and "1 < count_list (step_head front (locked s mv) # rest) (step_head front (locked s mv))"
  shows "move rnd mv s = Some (Inr (LOST, s\<lparr>snake := step_head front (locked s mv) # rest\<rparr>))"
proof -
  from assms(3) have "step_head front (locked s mv) \<in> set rest"
    using count_list_head [of "step_head front (locked s mv)" rest] by simp
  with assms(1,2) show ?thesis by (simp add: move_def move_dir_LOST_self)
qed

theorem move_self_collision_witness:
  "move rnd_hi DOWN (game9\<lparr>snake := [Cell 4 4, Cell 4 5, Cell 5 5, Cell 5 4, Cell 5 3]\<rparr>)
     = Some (Inr (LOST, game9\<lparr>snake := [Cell 5 4, Cell 4 5, Cell 5 5, Cell 5 4, Cell 5 3]\<rparr>))"
  using move_self_collision
    [of "game9\<lparr>snake := [Cell 4 4, Cell 4 5, Cell 5 5, Cell 5 4, Cell 5 3]\<rparr>"
        "Cell 4 4" "[Cell 4 5, Cell 5 5, Cell 5 4, Cell 5 3]" DOWN rnd_hi]
  by (simp add: game9_def locked_def areOpposite_def candidate_def in_grid_def step_head_def)

text \<open>
  C10. When the move stays inside the grid and the new head equals the cell of the tail,
  \<^verbatim>\<open>move\<close> returns \<^verbatim>\<open>LOST\<close>: the cells are counted before the second loop would have
  moved the tail away.
\<close>

theorem move_onto_tail:
  assumes "snake s = front # rest"
    and "in_grid s (candidate front (locked s mv))"
    and "step_head front (locked s mv) = last (snake s)"
  shows "move rnd mv s = Some (Inr (LOST, s\<lparr>snake := step_head front (locked s mv) # rest\<rparr>))"
proof -
  have "step_head front (locked s mv) \<noteq> front"
    using assms(2) by (rule step_head_ne)
  with assms(1,3) have "rest \<noteq> []" by auto
  with assms(1,3) have "step_head front (locked s mv) \<in> set rest" by simp
  with assms(1,2) show ?thesis by (simp add: move_def move_dir_LOST_self)
qed

theorem move_onto_tail_witness:
  "move rnd_hi DOWN (game9\<lparr>snake := [Cell 4 4, Cell 4 5, Cell 5 5, Cell 5 4]\<rparr>)
     = Some (Inr (LOST, game9\<lparr>snake := [Cell 5 4, Cell 4 5, Cell 5 5, Cell 5 4]\<rparr>))"
  using move_onto_tail
    [of "game9\<lparr>snake := [Cell 4 4, Cell 4 5, Cell 5 5, Cell 5 4]\<rparr>"
        "Cell 4 4" "[Cell 4 5, Cell 5 5, Cell 5 4]" DOWN rnd_hi]
  by (simp add: game9_def locked_def areOpposite_def candidate_def in_grid_def step_head_def)

text \<open>
  C1 (as amended). When the move stays inside the grid, meets no cell of the snake and
  takes the head onto the food, then after \<^verbatim>\<open>move\<close> has returned the snake is the new
  head followed by all old cells: one cell longer, with the last cell where the old tail
  was. The score is the old score plus 1 modulo \<open>2 ^ 16\<close>, the remaining food is the old
  one minus 1 modulo \<open>2 ^ 8\<close> (\<open>+ 255\<close>), and the new food is on no cell of the snake.
\<close>

theorem move_onto_food_grows:
  assumes "snake s = front # rest"
    and "in_grid s (candidate front (locked s mv))"
    and "step_head front (locked s mv) \<notin> set rest"
    and "step_head front (locked s mv) = food s"
    and "move rnd mv s = Some (Inr (st, s'))"
  shows "snake s' = food s # snake s
     \<and> length (snake s') = length (snake s) + 1
     \<and> last (snake s') = last (snake s)
     \<and> score s' = score s + 1
     \<and> unat (score s') = (unat (score s) + 1) mod 2 ^ 16
     \<and> lv_food s' = lv_food s - 1
     \<and> unat (lv_food s') = (unat (lv_food s) + 255) mod 2 ^ 8
     \<and> food s' \<notin> set (snake s')"
  using assms(5)
proof (cases rule: move_result)
  case (eat front' rest' s3)
  from addnewfood_fields [OF eat(5)] eat(4,7)
  have "snake s' = food s # snake s" and "score s' = score s + 1" and "lv_food s' = lv_food s + 255"
    and "food s' \<notin> set (snake s')"
    by (simp_all add: grown_def split: if_splits)
  then show ?thesis using assms(1) by (simp add: unat_word_ariths)
qed (use assms in auto)

theorem move_onto_food_grows_witness:
  "move rnd_retry LEFT game9
     = Some (Inr (NONE, game9\<lparr>lv_food := 1, score := 1, snake := [Cell 4 3, Cell 4 4, Cell 4 5],
                              food := Cell 2 2, rng := 4\<rparr>))
   \<and> length [Cell 4 3, Cell 4 4, Cell 4 5] = length (snake game9) + 1
   \<and> last [Cell 4 3, Cell 4 4, Cell 4 5] = last (snake game9)
   \<and> unat (1 :: UU) = (unat (score game9) + 1) mod 2 ^ 16
   \<and> unat (1 :: U) = (unat (lv_food game9) + 255) mod 2 ^ 8
   \<and> Cell 2 2 \<notin> set [Cell 4 3, Cell 4 4, Cell 4 5]"
proof -
  let ?s' = "game9\<lparr>lv_food := 1, score := 1, snake := [Cell 4 3, Cell 4 4, Cell 4 5],
                   food := Cell 2 2, rng := 4\<rparr>"
  have m: "move rnd_retry LEFT game9 = Some (Inr (NONE, ?s'))"
    using game9_eats [where F = 2 and S = 0] by (simp add: game9_def)
  have h: "snake game9 = Cell 4 4 # [Cell 4 5]"
    "in_grid game9 (candidate (Cell 4 4) (locked game9 LEFT))"
    "step_head (Cell 4 4) (locked game9 LEFT) \<notin> set [Cell 4 5]"
    "step_head (Cell 4 4) (locked game9 LEFT) = food game9"
    by (simp_all add: game9_def locked_def areOpposite_def in_grid_def candidate_def step_head_def)
  have f: "snake ?s' = [Cell 4 3, Cell 4 4, Cell 4 5]" "score ?s' = 1" "lv_food ?s' = 1" "food ?s' = Cell 2 2"
    by simp_all
  from move_onto_food_grows [OF h m] m show ?thesis
    unfolding f by blast
qed

text \<open>With the score at 65535 the food is eaten and the score is 0 afterwards, not
  65536: the counter of type \<^verbatim>\<open>unsigned short\<close> wraps.\<close>

theorem score_wraps_counterexample:
  "move rnd_retry LEFT (game9\<lparr>score := 65535\<rparr>)
     = Some (Inr (NONE, game9\<lparr>lv_food := 1, score := 0, snake := [Cell 4 3, Cell 4 4, Cell 4 5],
                              food := Cell 2 2, rng := 4\<rparr>))
   \<and> unat (score (game9\<lparr>score := 65535\<rparr>)) + 1 = 65536
   \<and> unat (score (game9\<lparr>lv_food := 1, score := 0, snake := [Cell 4 3, Cell 4 4, Cell 4 5],
                              food := Cell 2 2, rng := 4\<rparr>)) = 0"
  using game9_eats [where F = 2 and S = 65535] by (simp add: game9_def)


text \<open>
  C5 (as amended). When the move stays inside the grid, meets no cell of the snake and
  takes the head onto the food, and some pass of the retry loop draws a cell off the
  grown snake, then \<^verbatim>\<open>move\<close> returns \<^verbatim>\<open>WIN\<close> if the remaining food was 1 and
  \<^verbatim>\<open>NONE\<close> otherwise, with the remaining food decremented. When no pass ever draws
  such a cell, \<^verbatim>\<open>move\<close> does not return.
\<close>

theorem move_onto_food_status:
  assumes "snake s = front # rest"
    and "in_grid s (candidate front (locked s mv))"
    and "step_head front (locked s mv) \<notin> set rest"
    and "step_head front (locked s mv) = food s"
  shows "if \<exists>n. nth_draw rnd (grown s (food s)) n \<notin> set (snake (grown s (food s)))
         then \<exists>s'. move rnd mv s = Some (Inr (if lv_food s = 1 then WIN else NONE, s'))
                  \<and> lv_food s' = lv_food s - 1
         else move rnd mv s = None"
proof (cases "\<exists>n. nth_draw rnd (grown s (food s)) n \<notin> set (snake (grown s (food s)))")
  case True
  then obtain n where "nth_draw rnd (grown s (food s)) n \<notin> set (snake (grown s (food s)))" ..
  from addnewfood_returns [OF this] obtain s3 where s3: "addnewfood rnd (grown s (food s)) = Some s3" ..
  from addnewfood_fields [OF s3] have "lv_food s3 = lv_food s" by (simp add: grown_def)
  with move_dir_free [OF assms(1-3), of rnd] assms(4) s3 True show ?thesis
    by (auto simp: move_def word_pred_zero)
next
  case False
  then have "addnewfood rnd (grown s (food s)) = None" by (intro addnewfood_None) blast
  with move_dir_free [OF assms(1-3), of rnd] assms(4) False show ?thesis
    by (simp add: move_def)
qed

theorem move_onto_food_status_witness:
  "(\<exists>s'. move rnd_retry LEFT (game9\<lparr>lv_food := 1\<rparr>) = Some (Inr (WIN, s')) \<and> lv_food s' = 0)
   \<and> (\<exists>s'. move rnd_retry LEFT game9 = Some (Inr (NONE, s')) \<and> lv_food s' = 1)"
proof -
  have "nth_draw rnd_retry (grown (game9\<lparr>lv_food := F\<rparr>) (food (game9\<lparr>lv_food := F\<rparr>))) 1
      \<notin> set (snake (grown (game9\<lparr>lv_food := F\<rparr>) (food (game9\<lparr>lv_food := F\<rparr>))))" for F
    by (simp add: nth_draw_def generate_def grown_def game9_def rnd_retry_def)
  then have "\<exists>n. nth_draw rnd_retry (grown (game9\<lparr>lv_food := F\<rparr>) (food (game9\<lparr>lv_food := F\<rparr>))) n
      \<notin> set (snake (grown (game9\<lparr>lv_food := F\<rparr>) (food (game9\<lparr>lv_food := F\<rparr>))))" for F ..
  with move_onto_food_status [of "game9\<lparr>lv_food := 1\<rparr>" "Cell 4 4" "[Cell 4 5]" LEFT rnd_retry]
    move_onto_food_status [of "game9\<lparr>lv_food := 2\<rparr>" "Cell 4 4" "[Cell 4 5]" LEFT rnd_retry]
  show ?thesis
    by (simp add: game9_def locked_def areOpposite_def in_grid_def candidate_def step_head_def)
qed

text \<open>On the full board the head reaches the last food, inside the grid and off the
  snake, with one food remaining, and \<^verbatim>\<open>move\<close> does not return \<^verbatim>\<open>WIN\<close>: it does
  not return.\<close>

theorem last_food_on_full_board_counterexample:
  "lv_food full9 = 1
   \<and> snake full9 = Cell 8 7 # map path9 (rev [0..<79])
   \<and> in_grid full9 (candidate (Cell 8 7) (locked full9 RIGHT))
   \<and> step_head (Cell 8 7) (locked full9 RIGHT) = food full9
   \<and> food full9 \<notin> set (map path9 (rev [0..<79]))
   \<and> move rnd_hi RIGHT full9 = None"
proof -
  have "move rnd_hi RIGHT full9 = None"
    by (rule full9_never_returns) (simp add: rnd_hi_def)
  moreover have "locked full9 RIGHT = RIGHT" by (simp add: locked_def areOpposite_def full9_def)
  moreover have "in_grid full9 (candidate (Cell 8 7) RIGHT)"
    by (simp add: in_grid_def candidate_def full9_def)
  moreover have "step_head (Cell 8 7) RIGHT = Cell 8 8" by (simp add: step_head_def)
  moreover have "food full9 = Cell 8 8" "lv_food full9 = 1" by (simp_all add: full9_def)
  ultimately show ?thesis using snake_full9 food_full9 by simp
qed


section \<open>The claims about the constructor and the reachable states\<close>

lemma step_head_RIGHT: "step_head (Cell hx hy) RIGHT = Cell hx (hy + 1)"
  by (simp add: step_head_def)

lemma step_head_DOWN: "step_head (Cell hx hy) DOWN = Cell (hx + 1) hy"
  by (simp add: step_head_def)

text \<open>
  C6 (as amended). The constructor throws when \<open>xsz < 9\<close> or \<open>ysz < 9\<close>, and when
  \<open>lv_food \<le> 0\<close>; no engine is built then. For all other arguments, and a random source
  of which some pass of the retry loop draws a cell off the two cells of the snake, it
  returns an engine with a snake of two cells, the head at \<open>(xsz div 2, ysz div 2)\<close> and
  the second cell at \<open>(xsz div 2, ysz div 2 + 1)\<close>, which is the cell that a step
  \<^verbatim>\<open>RIGHT\<close> from the head reaches; the food is on neither of them, and the last direction
  is \<^verbatim>\<open>LEFT\<close>. (With a source that draws cells of the snake for ever it does not
  return.)
\<close>

theorem SEngine_construction:
  "if X < 9 \<or> Y < 9 then SEngine rnd X Y F S = Some (Inl (runtime_error ''board size too small''))
   else if F \<le> 0 then SEngine rnd X Y F S = Some (Inl (runtime_error ''food must to be at least 1''))
   else if \<exists>n. nth_draw rnd (initial X Y F S) n \<notin> set (snake (initial X Y F S))
   then \<exists>s hx hy. SEngine rnd X Y F S = Some (Inr s)
          \<and> snake s = [Cell hx hy, Cell hx (hy + 1)]
          \<and> unat hx = unat X div 2 \<and> unat hy = unat Y div 2 \<and> unat (hy + 1) = unat Y div 2 + 1
          \<and> Cell hx (hy + 1) = step_head (Cell hx hy) RIGHT
          \<and> food s \<notin> set (snake s) \<and> prv_mv s = LEFT
   else SEngine rnd X Y F S = None"
proof (cases "X < 9 \<or> Y < 9 \<or> F \<le> 0")
  case True
  then show ?thesis by (auto simp: SEngine_def)
next
  case valid: False
  then have Y: "9 \<le> unat Y" by (simp add: not_less_9)
  have "unat X < 256" "unat Y < 256" using unsigned_less [of X] unsigned_less [of Y] by simp_all
  then have c: "unat X div 2 < 256" "unat Y div 2 < 256" "unat Y div 2 + 1 < 256" by simp_all
  define hx :: U where "hx = of_nat (unat X div 2)"
  define hy :: U where "hy = of_nat (unat Y div 2)"
  have ty: "of_nat (unat Y div 2 + 1) = hy + 1" by (simp add: hy_def)
  have u: "unat hx = unat X div 2" "unat hy = unat Y div 2" "unat (hy + 1) = unat Y div 2 + 1"
    using unat_small [OF c(1)] unat_small [OF c(2)] unat_small [OF c(3)]
    unfolding ty hx_def [symmetric] hy_def [symmetric] by simp_all
  show ?thesis
  proof (cases "\<exists>n. nth_draw rnd (initial X Y F S) n \<notin> set (snake (initial X Y F S))")
    case True
    then obtain n where "nth_draw rnd (initial X Y F S) n \<notin> set (snake (initial X Y F S))" ..
    from addnewfood_returns [OF this] obtain s1 where s1: "addnewfood rnd (initial X Y F S) = Some s1" ..
    note f = addnewfood_fields [OF s1]
    from f Y have "0 < unat (ysz (s1\<lparr>prv_mv := LEFT\<rparr>))" by (simp add: initial_def)
    note r = to_wstr_True [OF this]
    from valid s1 r have "SEngine rnd X Y F S = Some (Inr (s1\<lparr>prv_mv := LEFT,
        buffer := layout (s1\<lparr>prv_mv := LEFT\<rparr>) (unwritten_row (s1\<lparr>prv_mv := LEFT\<rparr>)),
        length' := LENGTH' (xsz s1) (ysz s1)\<rparr>))"
      by (simp add: SEngine_def)
    moreover from f have "snake s1 = snake (initial X Y F S)" and "food s1 \<notin> set (snake s1)"
      by blast+
    moreover have "snake (initial X Y F S) = [Cell hx hy, Cell hx (hy + 1)]"
      unfolding hx_def hy_def ty [unfolded hy_def, symmetric]
      by (simp only: initial_def engine.select_convs)
    ultimately have "SEngine rnd X Y F S = Some (Inr (s1\<lparr>prv_mv := LEFT,
        buffer := layout (s1\<lparr>prv_mv := LEFT\<rparr>) (unwritten_row (s1\<lparr>prv_mv := LEFT\<rparr>)),
        length' := LENGTH' (xsz s1) (ysz s1)\<rparr>))
          \<and> snake (s1\<lparr>prv_mv := LEFT,
        buffer := layout (s1\<lparr>prv_mv := LEFT\<rparr>) (unwritten_row (s1\<lparr>prv_mv := LEFT\<rparr>)),
        length' := LENGTH' (xsz s1) (ysz s1)\<rparr>) = [Cell hx hy, Cell hx (hy + 1)]
          \<and> food (s1\<lparr>prv_mv := LEFT,
        buffer := layout (s1\<lparr>prv_mv := LEFT\<rparr>) (unwritten_row (s1\<lparr>prv_mv := LEFT\<rparr>)),
        length' := LENGTH' (xsz s1) (ysz s1)\<rparr>) \<notin> set (snake (s1\<lparr>prv_mv := LEFT,
        buffer := layout (s1\<lparr>prv_mv := LEFT\<rparr>) (unwritten_row (s1\<lparr>prv_mv := LEFT\<rparr>)),
        length' := LENGTH' (xsz s1) (ysz s1)\<rparr>))
          \<and> prv_mv (s1\<lparr>prv_mv := LEFT,
        buffer := layout (s1\<lparr>prv_mv := LEFT\<rparr>) (unwritten_row (s1\<lparr>prv_mv := LEFT\<rparr>)),
        length' := LENGTH' (xsz s1) (ysz s1)\<rparr>) = LEFT"
      by simp
    with u step_head_RIGHT [of hx hy]
    have "\<exists>s hx hy. SEngine rnd X Y F S = Some (Inr s)
          \<and> snake s = [Cell hx hy, Cell hx (hy + 1)]
          \<and> unat hx = unat X div 2 \<and> unat hy = unat Y div 2 \<and> unat (hy + 1) = unat Y div 2 + 1
          \<and> Cell hx (hy + 1) = step_head (Cell hx hy) RIGHT
          \<and> food s \<notin> set (snake s) \<and> prv_mv s = LEFT"
      by metis
    with valid True show ?thesis by simp
  next
    case False
    then have "addnewfood rnd (initial X Y F S) = None" by (intro addnewfood_None) blast
    with valid False show ?thesis by (simp add: SEngine_def)
  qed
qed


theorem SEngine_construction_witness:
  "SEngine rnd_retry 8 9 1 0 = Some (Inl (runtime_error ''board size too small''))
   \<and> SEngine rnd_retry 9 9 0 0 = Some (Inl (runtime_error ''food must to be at least 1''))
   \<and> (\<exists>s hx hy. SEngine rnd_retry 9 9 2 0 = Some (Inr s)
          \<and> snake s = [Cell hx hy, Cell hx (hy + 1)] \<and> unat hx = 4 \<and> unat hy = 4 \<and> unat (hy + 1) = 5
          \<and> Cell hx (hy + 1) = step_head (Cell hx hy) RIGHT
          \<and> food s \<notin> set (snake s) \<and> prv_mv s = LEFT)"
proof -
  have "nth_draw rnd_retry (initial 9 9 2 0) 1 \<notin> set (snake (initial 9 9 2 0))"
    by (simp add: nth_draw_def generate_def initial_def rnd_retry_def)
  then have "\<exists>n. nth_draw rnd_retry (initial 9 9 2 0) n \<notin> set (snake (initial 9 9 2 0))" ..
  with SEngine_construction [of 8 9 rnd_retry 1 0] SEngine_construction [of 9 9 rnd_retry 0 0]
    SEngine_construction [of 9 9 rnd_retry 2 0]
  show ?thesis by simp
qed


text \<open>On the board of 9 by 9 cells the second cell is \<open>(4, 5)\<close>: one step \<^verbatim>\<open>RIGHT\<close> of the
  head \<open>(4, 4)\<close>, with its two units right behind those of the head in the line of the
  buffer. The cell one step \<^verbatim>\<open>DOWN\<close>, one row below, is \<open>(5, 4)\<close>.\<close>

theorem second_cell_beside_head_counterexample:
  "SEngine rnd_retry 9 9 2 0 = Some (Inr built9)
   \<and> snake built9 = [Cell 4 4, Cell 4 5]
   \<and> step_head (Cell 4 4) DOWN = Cell 5 4
   \<and> step_head (Cell 4 4) RIGHT = Cell 4 5
   \<and> unit_index built9 4 5 = unit_index built9 4 4 + 2"
  using built9_constructed
  by (simp add: step_head_def built9_def game9_def unit_index_def)

text \<open>Where the food is off the snake before a call of \<^verbatim>\<open>move\<close>, it is off the snake when
  the call has returned, whatever the status.\<close>

lemma move_keeps_food_off:
  assumes "food s \<notin> set (snake s)" and "move rnd mv s = Some (Inr (st, s'))"
  shows "food s' \<notin> set (snake s')"
  using assms(2)
proof (cases rule: move_result)
  case (bounds front rest)
  with assms(1) show ?thesis by simp
next
  case (self front rest)
  with assms(1) show ?thesis by auto
next
  case (eat front rest s3)
  from eat(5) have "food s3 \<notin> set (snake s3)" by (rule addnewfood_Some)
  with eat(7) show ?thesis by (simp split: if_splits)
next
  case (step front rest)
  from assms(1) have "food s \<notin> set (butlast (snake s))" by (auto dest: in_set_butlastD)
  with step show ?thesis by auto
qed

text \<open>
  C7. In every state reached from the constructor by moves that returned
  \<^verbatim>\<open>GameStatus::NONE\<close> (and by renderings), the food is on no cell of the snake; and
  it is on no cell of the snake after any further move that returns, the moves that eat
  and draw a new food included.
\<close>

theorem food_off_snake:
  assumes "reachable rnd s"
  shows "food s \<notin> set (snake s)
     \<and> (\<forall>mv st s'. move rnd mv s = Some (Inr (st, s')) \<longrightarrow> food s' \<notin> set (snake s'))"
proof -
  from assms have "food s \<notin> set (snake s)"
  proof (induction rule: reachable.induct)
    case (constructed X Y F S s)
    then obtain s1 where s1: "addnewfood rnd (initial X Y F S) = Some s1"
      and s: "to_wstr True (s1\<lparr>prv_mv := LEFT\<rparr>) = Some s"
      by (rule SEngine_Inr)
    from s1 have "food s1 \<notin> set (snake s1)" by (rule addnewfood_Some)
    with to_wstr_fields [OF s] show ?case by simp
  next
    case (moved s mv s')
    from moved(3,2) show ?case by (rule move_keeps_food_off)
  next
    case (rendered s b s')
    with to_wstr_fields [OF rendered(2)] show ?case by simp
  qed
  moreover have "food s' \<notin> set (snake s')" if "move rnd mv s = Some (Inr (st, s'))" for mv st s'
    using \<open>food s \<notin> set (snake s)\<close> that by (rule move_keeps_food_off)
  ultimately show ?thesis by blast
qed

theorem food_off_snake_witness:
  "reachable rnd_retry shown9 \<and> food shown9 \<notin> set (snake shown9)
   \<and> move rnd_retry LEFT shown9 = Some (Inr (NONE, moved9))
   \<and> food moved9 \<notin> set (snake moved9)"
  using food_off_snake [OF shown9_reachable] shown9_reachable shown9_moves
  by blast

section \<open>The claims about the rendered buffer\<close>

lemma nth_concat_rows:
  assumes "\<And>x. x < n \<Longrightarrow> length (f x) = c" and "x < n" and "j < c"
  shows "concat (map f [0..<n]) ! (x * c + j) = f x ! j"
  using assms
proof (induction n)
  case 0
  then show ?case by simp
next
  case (Suc n)
  have len: "length (concat (map f [0..<n])) = n * c"
    by (rule length_concat_rows) (simp add: Suc.prems(1))
  show ?case
  proof (cases "x < n")
    case True
    then have "Suc x \<le> n" by simp
    then have "Suc x * c \<le> n * c" by (rule mult_le_mono1)
    with Suc.prems(3) have "x * c + j < n * c" by simp
    with Suc.IH [OF _ True Suc.prems(3)] Suc.prems(1) len show ?thesis
      by (simp add: nth_append)
  next
    case False
    with Suc.prems(2) have "x = n" by simp
    with len show ?thesis by (simp add: nth_append)
  qed
qed

lemma nth_middle: "length pre = k \<Longrightarrow> j < length mid \<Longrightarrow> (pre @ mid @ post) ! (k + j) = mid ! j"
  by (auto simp: nth_append)

text \<open>The two units of the cell \<open>(x, y)\<close> in a buffer with the layout of the board.\<close>

lemma layout_cell:
  assumes cells: "\<And>x. x < unat (xsz s) \<Longrightarrow> length (cells x) = 2 * unat (ysz s)"
    and x: "x < unat (xsz s)" and y: "y < unat (ysz s)" and i: "i < 2"
  shows "layout s cells ! (unit_index s x y + i) = cells x ! (2 * y + i)"
proof -
  let ?S = "2 * unat (ysz s) + 5"
  let ?row = "\<lambda>x. [Some shade, Some shade] @ cells x @ [Some shade, Some shade, Some newline]"
  have b: "length (border_row s) = ?S" by (simp add: border_row_def)
  have r: "length (?row x) = ?S" if "x < unat (xsz s)" for x using cells [OF that] by simp
  have j: "2 + 2 * y + i < ?S" using y i by simp
  have rows: "length (concat (map ?row [0..<unat (xsz s)])) = unat (xsz s) * ?S"
    by (rule length_concat_rows) (rule r)
  have "Suc x \<le> unat (xsz s)" using x by simp
  then have "Suc x * ?S \<le> unat (xsz s) * ?S" by (rule mult_le_mono1)
  with j have inside: "x * ?S + (2 + 2 * y + i) < unat (xsz s) * ?S" by simp
  have idx: "unit_index s x y + i = ?S + (x * ?S + (2 + 2 * y + i))"
    by (simp add: unit_index_def)
  have "layout s cells ! (unit_index s x y + i) = concat (map ?row [0..<unat (xsz s)]) ! (x * ?S + (2 + 2 * y + i))"
    unfolding idx layout_def using b inside [folded rows] by (rule nth_middle)
  also have "\<dots> = ?row x ! (2 + 2 * y + i)"
    using r x j by (rule nth_concat_rows)
  also have "\<dots> = cells x ! (2 * y + i)"
    using cells [OF x] y i by (simp add: nth_append nth_Cons')
  finally show ?thesis .
qed

lemma glyph_row_cell:
  assumes "y < unat (ysz s)" and "i < 2"
  shows "glyph_row s x ! (2 * y + i) = glyph s (Cell (of_nat x) (of_nat y)) ! i"
proof -
  have "concat (map (\<lambda>y. glyph s (Cell (of_nat x) (of_nat y))) [0..<unat (ysz s)]) ! (y * 2 + i)
      = glyph s (Cell (of_nat x) (of_nat y)) ! i"
    using _ assms by (rule nth_concat_rows) (simp add: glyph_def)
  then show ?thesis by (simp add: glyph_row_def mult.commute)
qed


lemma written_append: "written (xs @ ys) = written xs + written ys"
  by (simp add: written_def)

lemma written_Nil: "written [] = 0"
  by (simp add: written_def)

lemma written_Cons: "written (u # xs) = (if u = None then 0 else 1) + written xs"
  by (simp add: written_def)

lemma written_replicate: "written (replicate n u) = (if u = None then 0 else n)"
  by (simp add: written_def)

lemma written_concat_rows:
  "(\<And>x. x < n \<Longrightarrow> written (f x) = c) \<Longrightarrow> written (concat (map f [0..<n])) = n * c"
  by (induction n) (simp_all add: written_append written_Nil)

lemma written_layout:
  assumes "\<And>x. x < unat (xsz s) \<Longrightarrow> written (cells x) = w"
  shows "written (layout s cells) = 4 * unat (ysz s) + 11 + unat (xsz s) * (5 + w)"
proof -
  have "written (concat (map (\<lambda>x. [Some shade, Some shade] @ cells x @ [Some shade, Some shade, Some newline])
                 [0..<unat (xsz s)])) = unat (xsz s) * (5 + w)"
    by (rule written_concat_rows) (simp add: written_append written_Cons written_Nil assms)
  then show ?thesis
    by (simp add: layout_def border_row_def written_append written_replicate written_Cons written_Nil)
qed

lemma written_glyph_row: "written (glyph_row s x) = 2 * unat (ysz s)"
proof -
  have "written (concat (map (\<lambda>y. glyph s (Cell (of_nat x) (of_nat y))) [0..<unat (ysz s)]))
      = unat (ysz s) * 2"
    by (rule written_concat_rows) (simp add: glyph_def written_Cons written_Nil)
  then show ?thesis by (simp add: glyph_row_def)
qed

lemma layout_NUL:
  assumes "\<And>x. x < unat (xsz s) \<Longrightarrow> length (cells x) = 2 * unat (ysz s)"
  shows "layout s cells ! LENGTH' (xsz s) (ysz s) = Some NUL"
    and "take (LENGTH' (xsz s) (ysz s)) (layout s cells) = butlast (layout s cells)"
proof -
  from length_layout [of s cells, OF assms]
  have "length (butlast (layout s cells)) = LENGTH' (xsz s) (ysz s)" by simp
  moreover have l: "layout s cells = butlast (layout s cells) @ [Some NUL]"
    by (simp add: layout_def butlast_append)
  ultimately show "layout s cells ! LENGTH' (xsz s) (ysz s) = Some NUL"
    by (metis nth_append_length)
  from \<open>length (butlast (layout s cells)) = LENGTH' (xsz s) (ysz s)\<close>
  show "take (LENGTH' (xsz s) (ysz s)) (layout s cells) = butlast (layout s cells)"
    by (metis butlast_conv_take length_butlast)
qed

lemma glyph_units: "set (glyph s c) \<subseteq> {Some full_block, Some circle, Some space}"
  by (auto simp: glyph_def)

lemma layout_glyph_units:
  "set (butlast (layout s (glyph_row s)))
     \<subseteq> {Some shade, Some newline, Some full_block, Some circle, Some space}"
proof -
  have "butlast (layout s (glyph_row s)) = border_row s
     @ concat (map (\<lambda>x. [Some shade, Some shade] @ glyph_row s x @ [Some shade, Some shade, Some newline])
                 [0..<unat (xsz s)])
     @ border_row s"
    by (simp add: layout_def butlast_append)
  moreover have "set (glyph_row s x) \<subseteq> {Some full_block, Some circle, Some space}" for x
    using glyph_units [of s] by (auto simp: glyph_row_def)
  moreover have "set (border_row s) \<subseteq> {Some shade, Some newline}"
    by (auto simp: border_row_def)
  ultimately show ?thesis by auto
qed

text \<open>
  C8 (as amended). For every engine built with the sizes \<open>width\<close> and \<open>height\<close> (both at
  least 9), after the constructor, after every call of \<^verbatim>\<open>move\<close> that has returned,
  whatever its status, and after every rendering: the sizes of the state are \<open>width\<close> and
  \<open>height\<close>, the buffer has \<open>((width+2) * (height+2)) * 2 + width + 2\<close> units and one more
  for the terminator, which is stored right after them, and the member \<^verbatim>\<open>length\<close> is
  that number. The first rendering ends with its write position at that number, but it
  stores the borders, the newlines and the terminator only: the \<open>2 * width * height\<close>
  units of the cells are skipped and stay as \<^verbatim>\<open>malloc\<close> returned them. Every later
  rendering stores all units of the cells, so that the buffer is then a text of exactly
  that many characters.
\<close>

theorem render_size:
  assumes "in_use rnd X Y s"
  shows "xsz s = X \<and> ysz s = Y \<and> 9 \<le> unat X \<and> 9 \<le> unat Y
     \<and> LENGTH' X Y = ((unat X + 2) * (unat Y + 2)) * 2 + unat X + 2
     \<and> length (buffer s) = LENGTH' X Y + 1
     \<and> length' s = LENGTH' X Y
     \<and> buffer s ! LENGTH' X Y = Some NUL
     \<and> (\<exists>b. draw_all s = Some (LENGTH' X Y, b)
            \<and> length b = LENGTH' X Y + 1
            \<and> b ! LENGTH' X Y = Some NUL
            \<and> written b = LENGTH' X Y + 1 - 2 * unat X * unat Y)
     \<and> (\<exists>s'. to_wstr False s = Some s'
            \<and> length (buffer s') = LENGTH' X Y + 1
            \<and> buffer s' ! LENGTH' X Y = Some NUL
            \<and> written (buffer s') = LENGTH' X Y + 1
            \<and> Some NUL \<notin> set (take (LENGTH' X Y) (buffer s')))"
proof -
  note inv = in_use_inv [OF assms]
  then have X: "xsz s = X" and Y: "ysz s = Y" by simp_all
  from inv obtain cells where buf: "buffer s = layout s cells"
    and cells: "\<And>x. x < unat (xsz s) \<Longrightarrow> length (cells x) = 2 * unat (ysz s)"
    unfolding framed_def by blast
  from inv obtain front body where sn: "snake s = front # body" by (cases "snake s") auto
  from inv have pos: "0 < unat (ysz s)" by simp
  have 1: "length (buffer s) = LENGTH' (xsz s) (ysz s) + 1"
    unfolding buf using cells by (rule length_layout)
  have 2: "buffer s ! LENGTH' (xsz s) (ysz s) = Some NUL"
    unfolding buf using cells by (rule layout_NUL)
  have 3: "LENGTH' (xsz s) (ysz s) = ((unat (xsz s) + 2) * (unat (ysz s) + 2)) * 2 + unat (xsz s) + 2"
    by (simp add: LENGTH'_def push_bit_eq_mult)
  have u: "length (unwritten_row s x) = 2 * unat (ysz s)" "written (unwritten_row s x) = 0" for x
    by (simp_all add: unwritten_row_def written_replicate)
  have "written (layout s (unwritten_row s)) = 4 * unat (ysz s) + 11 + unat (xsz s) * (5 + 0)"
    by (rule written_layout) (rule u)
  then have 4: "written (layout s (unwritten_row s))
      = LENGTH' (xsz s) (ysz s) + 1 - 2 * unat (xsz s) * unat (ysz s)"
    by (simp add: LENGTH'_eq algebra_simps)
  have "written (layout s (glyph_row s)) = 4 * unat (ysz s) + 11 + unat (xsz s) * (5 + 2 * unat (ysz s))"
    by (rule written_layout) (rule written_glyph_row)
  then have 5: "written (layout s (glyph_row s)) = LENGTH' (xsz s) (ysz s) + 1"
    by (simp add: LENGTH'_eq algebra_simps)
  have "Some NUL \<notin> set (butlast (layout s (glyph_row s)))"
    using layout_glyph_units [of s]
    by (auto simp: NUL_def shade_def newline_def full_block_def circle_def space_def)
  then have 6: "Some NUL \<notin> set (take (LENGTH' (xsz s) (ysz s)) (layout s (glyph_row s)))"
    by (simp add: layout_NUL(2) length_glyph_row)
  from draw_all_layout [OF pos] 4 length_layout [of s "unwritten_row s"] layout_NUL(1) [of s "unwritten_row s"] u
  have first: "\<exists>b. draw_all s = Some (LENGTH' (xsz s) (ysz s), b)
            \<and> length b = LENGTH' (xsz s) (ysz s) + 1
            \<and> b ! LENGTH' (xsz s) (ysz s) = Some NUL
            \<and> written b = LENGTH' (xsz s) (ysz s) + 1 - 2 * unat (xsz s) * unat (ysz s)"
    by simp
  from to_wstr_False [OF sn pos] inv 5 6 length_layout [of s "glyph_row s"] layout_NUL(1) [of s "glyph_row s"]
  have later: "\<exists>s'. to_wstr False s = Some s'
            \<and> length (buffer s') = LENGTH' (xsz s) (ysz s) + 1
            \<and> buffer s' ! LENGTH' (xsz s) (ysz s) = Some NUL
            \<and> written (buffer s') = LENGTH' (xsz s) (ysz s) + 1
            \<and> Some NUL \<notin> set (take (LENGTH' (xsz s) (ysz s)) (buffer s'))"
    by (simp add: length_glyph_row)
  from 1 2 3 inv first later show ?thesis unfolding X Y by simp
qed

theorem render_size_witness:
  "move rnd_near LEFT built12 = Some (Inr (WIN, won12))
   \<and> xsz won12 = 9 \<and> ysz won12 = 12
   \<and> LENGTH' 9 12 = 319
   \<and> length (buffer won12) = 320 \<and> length' won12 = 319 \<and> buffer won12 ! 319 = Some NUL
   \<and> (\<exists>b. draw_all won12 = Some (319, b) \<and> length b = 320 \<and> b ! 319 = Some NUL \<and> written b = 104)
   \<and> (\<exists>s'. to_wstr False won12 = Some s' \<and> length (buffer s') = 320 \<and> buffer s' ! 319 = Some NUL
          \<and> written (buffer s') = 320 \<and> Some NUL \<notin> set (take 319 (buffer s')))"
proof -
  have "LENGTH' 9 12 = 319" "unat (9 :: U) = 9" "unat (12 :: U) = 12"
    by (simp_all add: LENGTH'_eq)
  with render_size [OF won12_in_use] built12_wins show ?thesis by auto
qed

text \<open>On a board of 9 by 9 cells the first rendering ends at position 253, the value of
  the formula, and has stored 92 units by then: 91 characters and the terminator.\<close>

theorem first_render_skips_cells_counterexample:
  "map_option (\<lambda>kb. (fst kb, written (snd kb))) (draw_all (initial 9 9 2 0)) = Some (253, 92)
   \<and> LENGTH' 9 9 = 253"
proof -
  have "0 < unat (ysz (initial 9 9 2 0))" by (simp add: initial_def)
  from draw_all_layout [OF this]
  have "draw_all (initial 9 9 2 0) = Some (LENGTH' 9 9, layout (initial 9 9 2 0) (unwritten_row (initial 9 9 2 0)))"
    by (simp add: initial_def)
  moreover have "written (layout (initial 9 9 2 0) (unwritten_row (initial 9 9 2 0)))
      = 4 * unat (ysz (initial 9 9 2 0)) + 11 + unat (xsz (initial 9 9 2 0)) * (5 + 0)"
    by (rule written_layout) (simp add: unwritten_row_def written_replicate)
  moreover have "LENGTH' 9 9 = 253" by (simp add: LENGTH'_eq)
  ultimately show ?thesis by (simp add: initial_def)
qed

text \<open>
  C9 (as amended). \<^verbatim>\<open>move\<close> leaves the buffer as it was, whatever it returns. The
  buffer shows the state after the move once the caller has called \<^verbatim>\<open>to_wstr()\<close>:
  that call returns, and the two units of every cell \<open>(x, y)\<close> are then the glyph pair that
  the snake, the food and the empty cells of the state after the move dictate.
\<close>

theorem render_after_move:
  assumes "reachable rnd s" and "move rnd mv s = Some (Inr (st, s'))"
  shows "buffer s' = buffer s
     \<and> to_wstr False s' = Some (s'\<lparr>buffer := layout s' (glyph_row s')\<rparr>)
     \<and> (\<forall>x < unat (xsz s'). \<forall>y < unat (ysz s'). \<forall>i < 2.
          layout s' (glyph_row s') ! (unit_index s' x y + i) = glyph s' (Cell (of_nat x) (of_nat y)) ! i)"
proof -
  note inv = reachable_inv [OF assms(1)]
  note keep = move_keeps [OF assms(2)]
  from inv keep have "framed s'" by (intro framed_keeps [of s s']) simp_all
  moreover from keep obtain front body where "snake s' = front # body" by (cases "snake s'") auto
  moreover from inv keep have "0 < unat (ysz s')" by simp
  ultimately have "to_wstr False s' = Some (s'\<lparr>buffer := layout s' (glyph_row s')\<rparr>)"
    by (intro to_wstr_False)
  moreover have "layout s' (glyph_row s') ! (unit_index s' x y + i) = glyph s' (Cell (of_nat x) (of_nat y)) ! i"
    if "x < unat (xsz s')" "y < unat (ysz s')" "i < 2" for x y i
    using layout_cell [of s' "glyph_row s'" x y i] glyph_row_cell [of y s' i x] that
    by (simp add: length_glyph_row)
  ultimately show ?thesis using keep by simp
qed


theorem render_after_move_witness:
  "buffer moved9 = buffer shown9
   \<and> to_wstr False moved9 = Some (moved9\<lparr>buffer := layout moved9 (glyph_row moved9)\<rparr>)
   \<and> layout moved9 (glyph_row moved9) ! unit_index moved9 4 3 = glyph moved9 (Cell 4 3) ! 0"
proof -
  have "unat (xsz moved9) = 9" "unat (ysz moved9) = 9"
    by (simp_all add: moved9_def shown9_def built9_def game9_def)
  note dims = this
  from render_after_move [OF shown9_reachable shown9_moves]
  have a: "buffer moved9 = buffer shown9"
    and b: "to_wstr False moved9 = Some (moved9\<lparr>buffer := layout moved9 (glyph_row moved9)\<rparr>)"
    and c: "\<And>x y i. x < unat (xsz moved9) \<Longrightarrow> y < unat (ysz moved9) \<Longrightarrow> i < 2 \<Longrightarrow>
          layout moved9 (glyph_row moved9) ! (unit_index moved9 x y + i)
            = glyph moved9 (Cell (of_nat x) (of_nat y)) ! i"
    by blast+
  from c [of 4 3 0] dims a b show ?thesis by simp
qed


text \<open>After construction, a rendering and a move to the left, the head is on the cell
  \<open>(4, 3)\<close> and the buffer still has a space in the first unit of that cell.\<close>

theorem stale_buffer_counterexample:
  "reachable rnd_retry shown9
   \<and> move rnd_retry LEFT shown9 = Some (Inr (NONE, moved9))
   \<and> buffer moved9 ! unit_index moved9 4 3 = Some space
   \<and> glyph moved9 (Cell 4 3) ! 0 = Some full_block
   \<and> space \<noteq> full_block"
proof -
  have b: "buffer moved9 = layout built9 (glyph_row built9)"
    by (simp add: moved9_def shown9_def)
  have u: "unit_index moved9 4 3 = unit_index built9 4 3 + 0"
    by (simp add: unit_index_def moved9_def shown9_def)
  have "layout built9 (glyph_row built9) ! (unit_index built9 4 3 + 0) = glyph_row built9 4 ! (2 * 3 + 0)"
    by (rule layout_cell) (simp_all add: length_glyph_row built9_def game9_def)
  also have "\<dots> = glyph built9 (Cell (of_nat 4) (of_nat 3)) ! 0"
    by (rule glyph_row_cell) (simp_all add: built9_def game9_def)
  also have "\<dots> = Some space"
    by (simp add: glyph_def built9_def game9_def)
  finally have "buffer moved9 ! unit_index moved9 4 3 = Some space"
    by (simp only: b u)
  moreover have "glyph moved9 (Cell 4 3) ! 0 = Some full_block"
    by (simp add: glyph_def moved9_def)
  moreover have "space \<noteq> full_block" by (simp add: space_def full_block_def)
  ultimately show ?thesis using shown9_reachable shown9_moves by simp
qed

end
